theory Spec2Isabelle
  imports Complex_Main "HOL-Library.Word" "HOL-Library.Log_Nat"
begin

section \<open>Captcha image rendering (image.go)\<close>

text \<open>
  A shallow embedding of \<^verbatim>\<open>image.go\<close>. Go's \<^verbatim>\<open>int\<close> is modelled by \<open>int\<close>: every
  integer the code computes from an image that can be allocated stays far inside the
  64-bit range. \<^verbatim>\<open>uint8\<close> is \<open>8 word\<close>. Methods that mutate the image through the
  receiver pointer take the image and return the updated one.
\<close>

subsection \<open>Colours and the pixel buffer\<close>

type_synonym byte = "8 word"

record NRGBAColor =
  R :: byte
  G :: byte
  B :: byte
  A :: byte

text \<open>
  \<^verbatim>\<open>CaptchaImage\<close> embeds \<^verbatim>\<open>*image.NRGBA\<close>. Of the embedded image the code uses the
  bounds, which for \<^verbatim>\<open>image.NewNRGBA(width, height)\<close> are \<open>(0,0)-(width,height)\<close>
  (\<open>MaxX\<close>, \<open>MaxY\<close> stand for \<^verbatim>\<open>Bounds().Max.X\<close> and \<^verbatim>\<open>Bounds().Max.Y\<close>), and the
  pixels, here a function from coordinates to colours.
\<close>

record CaptchaImage =
  MaxX :: int
  MaxY :: int
  Pix :: "int \<times> int \<Rightarrow> NRGBAColor"
  primaryColor :: NRGBAColor
  numWidth :: int
  numHeight :: int
  dotSize :: int

text \<open>
  \<^verbatim>\<open>(*image.NRGBA).Set\<close>: a point outside the bounds is ignored, a point inside gets
  the colour. Every colour the code passes is an \<^verbatim>\<open>NRGBAColor\<close>, which \<^verbatim>\<open>Set\<close> stores
  as it is.
\<close>

definition inBounds :: "CaptchaImage \<Rightarrow> int \<Rightarrow> int \<Rightarrow> bool" where
  "inBounds img x y \<longleftrightarrow> 0 \<le> x \<and> x < MaxX img \<and> 0 \<le> y \<and> y < MaxY img"

definition Set_NRGBA :: "CaptchaImage \<Rightarrow> int \<Rightarrow> int \<Rightarrow> NRGBAColor \<Rightarrow> CaptchaImage" where
  "Set_NRGBA img x y color =
     (if inBounds img x y
      then img\<lparr>Pix := (Pix img)((x, y) := color)\<rparr>
      else img)"

subsection \<open>Rasterizer\<close>

text \<open>\<^verbatim>\<open>for x := fromX; x <= toX; x++ { img.Set(x, y, color) }\<close>\<close>

function drawHorizLine :: "CaptchaImage \<Rightarrow> NRGBAColor \<Rightarrow> int \<Rightarrow> int \<Rightarrow> int \<Rightarrow> CaptchaImage" where
  "drawHorizLine img color fromX toX y =
     (if fromX \<le> toX
      then drawHorizLine (Set_NRGBA img fromX y color) color (fromX + 1) toX y
      else img)"
  by pat_completeness auto
termination
  by (relation "measure (\<lambda>(img, color, fromX, toX, y). nat (toX + 1 - fromX))") auto

declare drawHorizLine.simps [simp del]

text \<open>
  The loop of \<^verbatim>\<open>drawCircle\<close>, \<^verbatim>\<open>for xx < yy { ... }\<close>, with the five loop variables
  \<^verbatim>\<open>f\<close>, \<^verbatim>\<open>dfx\<close>, \<^verbatim>\<open>dfy\<close>, \<^verbatim>\<open>xx\<close>, \<^verbatim>\<open>yy\<close> as arguments.
\<close>

function drawCircle_loop ::
  "CaptchaImage \<Rightarrow> NRGBAColor \<Rightarrow> int \<Rightarrow> int \<Rightarrow> int \<Rightarrow> int \<Rightarrow> int \<Rightarrow> int \<Rightarrow> int \<Rightarrow> CaptchaImage" where
  "drawCircle_loop img color x y f dfx dfy xx yy =
     (if xx < yy then
        let yy1 = (if 0 \<le> f then yy - 1 else yy);
            dfy1 = (if 0 \<le> f then dfy + 2 else dfy);
            f1 = (if 0 \<le> f then f + dfy1 else f);
            xx1 = xx + 1;
            dfx1 = dfx + 2;
            f2 = f1 + dfx1;
            img1 = drawHorizLine img color (x - xx1) (x + xx1) (y + yy1);
            img2 = drawHorizLine img1 color (x - xx1) (x + xx1) (y - yy1);
            img3 = drawHorizLine img2 color (x - yy1) (x + yy1) (y + xx1);
            img4 = drawHorizLine img3 color (x - yy1) (x + yy1) (y - xx1)
        in drawCircle_loop img4 color x y f2 dfx1 dfy1 xx1 yy1
      else img)"
  by pat_completeness auto
termination
  by (relation "measure (\<lambda>(img, color, x, y, f, dfx, dfy, xx, yy). nat (yy - xx))") auto

declare drawCircle_loop.simps [simp del]

definition drawCircle :: "CaptchaImage \<Rightarrow> NRGBAColor \<Rightarrow> int \<Rightarrow> int \<Rightarrow> int \<Rightarrow> CaptchaImage" where
  "drawCircle img color x y radius =
     (let f = 1 - radius;
          dfx = 1;
          dfy = - 2 * radius;
          xx = 0;
          yy = radius;
          img1 = Set_NRGBA img x (y + radius) color;
          img2 = Set_NRGBA img1 x (y - radius) color;
          img3 = drawHorizLine img2 color (x - radius) (x + radius) y
      in drawCircle_loop img3 color x y f dfx dfy xx yy)"

text \<open>A blank 3 by 3 canvas and an opaque colour, as sample inputs.\<close>

definition transparent :: NRGBAColor where
  "transparent = \<lparr>R = 0, G = 0, B = 0, A = 0\<rparr>"

definition grey :: NRGBAColor where
  "grey = \<lparr>R = 100, G = 100, B = 100, A = 255\<rparr>"

definition blank3 :: CaptchaImage where
  "blank3 = \<lparr>MaxX = 3, MaxY = 3, Pix = (\<lambda>p. transparent), primaryColor = grey,
             numWidth = 0, numHeight = 0, dotSize = 0\<rparr>"


subsection \<open>Errors and the random source\<close>

text \<open>
  What can stop a call: \<^verbatim>\<open>rand.Intn(n)\<close> with \<open>n \<le> 0\<close> (the documented contract of
  \<^verbatim>\<open>Intn\<close> is \<open>n > 0\<close>; it panics otherwise), an index outside a slice, and the
  allocation of a pixel buffer of negative size. \<open>NotFinite\<close> marks the one input on
  which the \<^verbatim>\<open>float64\<close> arithmetic leaves the finite numbers (no digits: a division by
  \<open>0.0\<close>), which the model of \<^verbatim>\<open>float64\<close> below does not cover.
\<close>

datatype error = IntnNonPositive int | IndexOutOfRange | NegativeSize | NotFinite

definition bindE :: "error + 'a \<Rightarrow> ('a \<Rightarrow> error + 'b) \<Rightarrow> error + 'b" where
  "bindE m f = (case m of Inl e \<Rightarrow> Inl e | Inr v \<Rightarrow> f v)"

lemma bindE_cong [fundef_cong]:
  "m = m' \<Longrightarrow> (\<And>v. m' = Inr v \<Longrightarrow> f v = f' v) \<Longrightarrow> bindE m f = bindE m' f'"
  by (auto simp: bindE_def split: sum.splits)

text \<open>
  The package \<^verbatim>\<open>rand\<close> is not part of the repository. Its process-wide generator is
  modelled as the sequence of values it is going to produce and the number of values
  already taken. \<^verbatim>\<open>Intn(n)\<close> takes the next value and reduces it to \<open>[0, n)\<close>;
  \<^verbatim>\<open>Float64()\<close> takes the next value and returns a multiple of \<open>2\<^sup>-\<^sup>5\<^sup>3\<close> in
  \<open>[0, 1)\<close>. Every value of the range is the result for some sequence.
\<close>

record RandSource =
  draws :: "nat \<Rightarrow> nat"
  pos :: nat

definition Intn :: "int \<Rightarrow> RandSource \<Rightarrow> error + (int \<times> RandSource)" where
  "Intn n s =
     (if n \<le> 0 then Inl (IntnNonPositive n)
      else Inr (int (draws s (pos s)) mod n, s\<lparr>pos := Suc (pos s)\<rparr>))"

definition Float64 :: "RandSource \<Rightarrow> rat \<times> RandSource" where
  "Float64 s = (of_nat (draws s (pos s) mod 2 ^ 53) / 2 ^ 53, s\<lparr>pos := Suc (pos s)\<rparr>)"

text \<open>\<^verbatim>\<open>func rnd(from, to int) int { return rand.Intn(to+1-from) + from }\<close>\<close>

definition rnd :: "int \<Rightarrow> int \<Rightarrow> RandSource \<Rightarrow> error + (int \<times> RandSource)" where
  "rnd from to s = bindE (Intn (to + 1 - from) s) (\<lambda>(v, s'). Inr (v + from, s'))"

subsection \<open>Integer division and \<^verbatim>\<open>float64\<close>\<close>

text \<open>Go's \<^verbatim>\<open>/\<close> on integers truncates towards zero.\<close>

definition quo :: "int \<Rightarrow> int \<Rightarrow> int" where
  "quo a b = sgn a * sgn b * (\<bar>a\<bar> div \<bar>b\<bar>)"

text \<open>
  A finite \<^verbatim>\<open>float64\<close> is a rational number. Every arithmetic operation of the code
  is the exact operation followed by \<open>f64\<close>, the rounding of IEEE 754 binary64 to the
  nearest number with a 53-bit significand, ties to the even significand. The exponent
  is not bounded here: the magnitudes that the code derives from 64-bit integers lie far
  inside the range of normal numbers. \<open>ilog2 x\<close> is the binary exponent of \<open>x > 0\<close>,
  that is \<open>2 powi ilog2 x \<le> x < 2 powi (ilog2 x + 1)\<close>.
\<close>

definition rne :: "rat \<Rightarrow> int" where
  "rne q = (let n = \<lfloor>q\<rfloor>; d = q - of_int n
            in if d < 1 / 2 then n
               else if 1 / 2 < d then n + 1
               else if even n then n else n + 1)"

definition ilog2 :: "rat \<Rightarrow> int" where
  "ilog2 x = (if 1 \<le> x then bitlen \<lfloor>x\<rfloor> - 1 else - bitlen (\<lceil>1 / x\<rceil> - 1))"

definition f64 :: "rat \<Rightarrow> rat" where
  "f64 x = (if x = 0 then 0
            else let u = 2 powi (ilog2 \<bar>x\<bar> - 52)
                 in of_int (rne (x / u)) * u)"

text \<open>The conversions \<^verbatim>\<open>float64(n)\<close> and \<^verbatim>\<open>int(x)\<close>; the latter truncates towards zero.\<close>

definition float64 :: "int \<Rightarrow> rat" where
  "float64 n = f64 (of_int n)"

definition trunc :: "rat \<Rightarrow> int" where
  "trunc x = (if 0 \<le> x then \<lfloor>x\<rfloor> else \<lceil>x\<rceil>)"

subsection \<open>The font\<close>

text \<open>
  The constants \<^verbatim>\<open>fontWidth\<close>, \<^verbatim>\<open>fontHeight\<close>, \<^verbatim>\<open>blackChar\<close> and the table \<^verbatim>\<open>font\<close> are
  declared in a file that is not among the sources; they are parameters of the model.
  \<open>sampleFont\<close> is a table of ten glyphs of 5 by 8 cells, for concrete inputs.
\<close>

record Font =
  fontWidth :: int
  fontHeight :: int
  blackChar :: byte
  font :: "byte list list"

definition sampleFont :: Font where
  "sampleFont = \<lparr>fontWidth = 5, fontHeight = 8, blackChar = 1,
                  font = replicate 10 (replicate 40 1)\<rparr>"

definition maxSkew :: int where
  "maxSkew = 2"

subsection \<open>Layout\<close>

definition calculateSizes :: "Font \<Rightarrow> CaptchaImage \<Rightarrow> int \<Rightarrow> int \<Rightarrow> int \<Rightarrow> CaptchaImage" where
  "calculateSizes F img width height ncount =
     (let border = (if width > height then quo height 5 else quo width 5);
          w = float64 (width - border * 2);
          h = float64 (height - border * 2);
          fw = f64 (float64 (fontWidth F) + 1);
          fh = float64 (fontHeight F);
          nc = float64 ncount;
          nw = f64 (w / nc);
          nh = f64 (f64 (nw * fh) / fw);
          nh' = (if nh > h then h else nh);
          nw' = (if nh > h then f64 (f64 (fw / fh) * h) else nw);
          d = trunc (f64 (nh' / fh))
      in img\<lparr>dotSize := d, numWidth := trunc nw', numHeight := trunc nh' - d\<rparr>)"

subsection \<open>Brightness\<close>

definition min3 :: "byte \<Rightarrow> byte \<Rightarrow> byte \<Rightarrow> byte" where
  "min3 x y z = (let o1 = x; o2 = (if y < o1 then y else o1) in if z < o2 then z else o2)"

definition max3 :: "byte \<Rightarrow> byte \<Rightarrow> byte \<Rightarrow> byte" where
  "max3 x y z = (let o1 = x; o2 = (if y > o1 then y else o1) in if z > o2 then z else o2)"

text \<open>
  \<^verbatim>\<open>max - maxc\<close> is a \<^verbatim>\<open>uint8\<close> subtraction, \<^verbatim>\<open>n\<close> an \<^verbatim>\<open>int\<close>, and \<^verbatim>\<open>uint8(int(c.R) + n)\<close>
  keeps the low eight bits.
\<close>

definition setRandomBrightness ::
  "NRGBAColor \<Rightarrow> byte \<Rightarrow> RandSource \<Rightarrow> error + (NRGBAColor \<times> RandSource)" where
  "setRandomBrightness c mx s =
     (let minc = min3 (R c) (G c) (B c);
          maxc = max3 (R c) (G c) (B c)
      in if maxc > mx then Inr (c, s)
         else bindE (Intn (uint (mx - maxc)) s) (\<lambda>(v, s').
           let n = v - uint minc
           in Inr (c\<lparr>R := word_of_int (uint (R c) + n),
                      G := word_of_int (uint (G c) + n),
                      B := word_of_int (uint (B c) + n)\<rparr>, s')))"

subsection \<open>Noise\<close>

text \<open>
  The loop of \<^verbatim>\<open>fillWithCircles\<close>; \<open>color\<close> is the local copy of the primary colour,
  which the loop changes from one circle to the next.
\<close>

function fillWithCircles_loop ::
  "CaptchaImage \<Rightarrow> NRGBAColor \<Rightarrow> int \<Rightarrow> int \<Rightarrow> int \<Rightarrow> int \<Rightarrow> int \<Rightarrow> RandSource
     \<Rightarrow> error + (CaptchaImage \<times> RandSource)" where
  "fillWithCircles_loop img color maxx maxy n maxradius i s =
     (if i < n then
        bindE (setRandomBrightness color 255 s) (\<lambda>(color', s1).
        bindE (rnd 1 maxradius s1) (\<lambda>(r, s2).
        bindE (rnd r (maxx - r) s2) (\<lambda>(x, s3).
        bindE (rnd r (maxy - r) s3) (\<lambda>(y, s4).
          fillWithCircles_loop (drawCircle img color' x y r) color' maxx maxy n maxradius (i + 1) s4))))
      else Inr (img, s))"
  by pat_completeness auto
termination
  by (relation "measure (\<lambda>(img, color, maxx, maxy, n, maxradius, i, s). nat (n - i))") auto

declare fillWithCircles_loop.simps [simp del]

definition fillWithCircles ::
  "CaptchaImage \<Rightarrow> int \<Rightarrow> int \<Rightarrow> RandSource \<Rightarrow> error + (CaptchaImage \<times> RandSource)" where
  "fillWithCircles img n maxradius s =
     fillWithCircles_loop img (primaryColor img) (MaxX img) (MaxY img) n maxradius 0 s"


text \<open>
  A draw of \<open>rnd\<close> that returns lies in \<open>[from, to]\<close>. The loop of \<^verbatim>\<open>strikeThrough\<close>
  needs this to end: its step \<open>r\<close> is drawn by \<^verbatim>\<open>rnd(1, img.dotSize/2-1)\<close>.
\<close>

lemma rnd_range:
  "rnd from to s = Inr (v, s') \<Longrightarrow> from \<le> v \<and> v \<le> to \<and> draws s' = draws s \<and> pos s' = Suc (pos s)"
proof -
  assume a: "rnd from to s = Inr (v, s')"
  then have n: "0 < to + 1 - from"
    by (auto simp: rnd_def Intn_def bindE_def split: if_splits)
  from a n have v: "v = int (draws s (pos s)) mod (to + 1 - from) + from"
    and s': "s' = s\<lparr>pos := Suc (pos s)\<rparr>"
    by (auto simp: rnd_def Intn_def bindE_def)
  have "0 \<le> int (draws s (pos s)) mod (to + 1 - from)"
    and "int (draws s (pos s)) mod (to + 1 - from) < to + 1 - from"
    using n by simp_all
  with v s' show ?thesis by simp
qed

text \<open>
  The loop \<^verbatim>\<open>for x := 0; x < maxx; x += r { ... }\<close> of \<^verbatim>\<open>strikeThrough\<close>. In
  \<^verbatim>\<open>-img.dotSize/2\<close> the negation binds tighter than the division.
\<close>

function strikeThrough_loop ::
  "CaptchaImage \<Rightarrow> int \<Rightarrow> int \<Rightarrow> int \<Rightarrow> int \<Rightarrow> RandSource \<Rightarrow> error + (CaptchaImage \<times> RandSource)" where
  "strikeThrough_loop img maxx maxy x y s =
     (if x < maxx then
        bindE (rnd 1 (quo (dotSize img) 2 - 1) s) (\<lambda>(r, s1).
        bindE (rnd (quo (- dotSize img) 2) (quo (dotSize img) 2) s1) (\<lambda>(dy, s2).
        bindE (if y + dy \<le> 0 \<or> y + dy \<ge> maxy
               then rnd (quo maxy 3) (maxy - quo maxy 3) s2
               else Inr (y + dy, s2)) (\<lambda>(y', s3).
          strikeThrough_loop (drawCircle img (primaryColor img) x y' r) maxx maxy (x + r) y' s3)))
      else Inr (img, s))"
  by pat_completeness auto
termination
proof (relation "measure (\<lambda>(img, maxx, maxy, x, y, s). nat (maxx - x))", goal_cases)
  case 1
  show ?case by simp
next
  case (2 img maxx maxy x y s v r s1 v' dy s2 v'' y' s3)
  then have "rnd 1 (quo (dotSize img) 2 - 1) s = Inr (r, s1)" by simp
  then have "1 \<le> r" by (simp add: rnd_range)
  with 2(1) show ?case by simp
qed

declare strikeThrough_loop.simps [simp del]

definition strikeThrough :: "CaptchaImage \<Rightarrow> RandSource \<Rightarrow> error + (CaptchaImage \<times> RandSource)" where
  "strikeThrough img s =
     (let maxx = MaxX img;
          maxy = MaxY img
      in bindE (rnd (quo maxy 3) (maxy - quo maxy 3) s) (\<lambda>(y, s').
           strikeThrough_loop img maxx maxy 0 y s'))"


subsection \<open>Digits\<close>

text \<open>
  The inner loop of \<^verbatim>\<open>drawNumber\<close> over the columns \<open>xx\<close> of one glyph row \<open>yy\<close>.
  Reading \<^verbatim>\<open>number[yy*fontWidth+xx]\<close> outside the slice panics. \<open>or1\<close> is the
  source's \<^verbatim>\<open>or\<close>.
\<close>

function drawNumber_cols ::
  "Font \<Rightarrow> CaptchaImage \<Rightarrow> byte list \<Rightarrow> int \<Rightarrow> int \<Rightarrow> int \<Rightarrow> int \<Rightarrow> int \<Rightarrow> int \<Rightarrow> RandSource
     \<Rightarrow> error + (CaptchaImage \<times> RandSource)" where
  "drawNumber_cols F img number x y minr maxr yy xx s =
     (if xx < fontWidth F then
        if yy * fontWidth F + xx < 0 \<or> int (length number) \<le> yy * fontWidth F + xx
        then Inl IndexOutOfRange
        else if number ! nat (yy * fontWidth F + xx) \<noteq> blackChar F
        then drawNumber_cols F img number x y minr maxr yy (xx + 1) s
        else
          bindE (rnd minr maxr s) (\<lambda>(or1, s1).
          bindE (rnd 0 (quo or1 2) s1) (\<lambda>(dx, s2).
          bindE (rnd 0 (quo or1 2) s2) (\<lambda>(dy, s3).
            drawNumber_cols F
              (drawCircle img (primaryColor img)
                 (x + (xx * dotSize img) + dx) (y + (yy * dotSize img) + dy) or1)
              number x y minr maxr yy (xx + 1) s3)))
      else Inr (img, s))"
  by pat_completeness auto
termination
  by (relation "measure (\<lambda>(F, img, number, x, y, minr, maxr, yy, xx, s). nat (fontWidth F - xx))") auto

declare drawNumber_cols.simps [simp del]

text \<open>The outer loop over the rows, with \<^verbatim>\<open>xs += skf; x = int(xs)\<close> after each row.\<close>

function drawNumber_rows ::
  "Font \<Rightarrow> CaptchaImage \<Rightarrow> byte list \<Rightarrow> int \<Rightarrow> int \<Rightarrow> int \<Rightarrow> int \<Rightarrow> rat \<Rightarrow> rat \<Rightarrow> int \<Rightarrow> RandSource
     \<Rightarrow> error + (CaptchaImage \<times> RandSource)" where
  "drawNumber_rows F img number x y minr maxr skf xs yy s =
     (if yy < fontHeight F then
        bindE (drawNumber_cols F img number x y minr maxr yy 0 s) (\<lambda>(img', s').
          drawNumber_rows F img' number (trunc (f64 (xs + skf))) y minr maxr skf (f64 (xs + skf))
            (yy + 1) s')
      else Inr (img, s))"
  by pat_completeness auto
termination
  by (relation "measure (\<lambda>(F, img, number, x, y, minr, maxr, skf, xs, yy, s). nat (fontHeight F - yy))")
    auto

declare drawNumber_rows.simps [simp del]

definition drawNumber ::
  "Font \<Rightarrow> CaptchaImage \<Rightarrow> byte list \<Rightarrow> int \<Rightarrow> int \<Rightarrow> RandSource
     \<Rightarrow> error + (CaptchaImage \<times> RandSource)" where
  "drawNumber F img number x y s =
     (case Float64 s of (u, s1) \<Rightarrow>
        bindE (rnd (- maxSkew) maxSkew s1) (\<lambda>(k, s2).
          let skf = f64 (u * float64 k);
              xs = float64 x;
              minr = quo (dotSize img) 2;
              maxr = quo (dotSize img) 2 + quo (dotSize img) 4
          in bindE (rnd (- minr) minr s2) (\<lambda>(dy, s3).
               drawNumber_rows F img number x (y + dy) minr maxr skf xs 0 s3)))"

subsection \<open>The image\<close>

text \<open>
  \<^verbatim>\<open>NewImage\<close> in three parts: the choice of the anchor (lines 48 to 51), the loop over
  the digits (lines 53 to 56), where \<^verbatim>\<open>font[n]\<close> panics for \<open>n\<close> outside the table, and
  the whole function.
\<close>

definition NewImage_anchor ::
  "CaptchaImage \<Rightarrow> int \<Rightarrow> int \<Rightarrow> int \<Rightarrow> RandSource \<Rightarrow> error + ((int \<times> int) \<times> RandSource)" where
  "NewImage_anchor img width height n s =
     (let maxx = width - (numWidth img + dotSize img) * n - dotSize img;
          maxy = height - numHeight img - dotSize img * 2
      in bindE (rnd (dotSize img * 2) maxx s) (\<lambda>(x, s1).
         bindE (rnd (dotSize img * 2) maxy s1) (\<lambda>(y, s2).
           Inr ((x, y), s2))))"

fun NewImage_numbers ::
  "Font \<Rightarrow> CaptchaImage \<Rightarrow> byte list \<Rightarrow> int \<Rightarrow> int \<Rightarrow> RandSource
     \<Rightarrow> error + (CaptchaImage \<times> RandSource)" where
  "NewImage_numbers F img [] x y s = Inr (img, s)"
| "NewImage_numbers F img (n # numbers) x y s =
     (if length (font F) \<le> unat n then Inl IndexOutOfRange
      else bindE (drawNumber F img (font F ! unat n) x y s) (\<lambda>(img', s').
             NewImage_numbers F img' numbers (x + (numWidth img' + dotSize img')) y s'))"

text \<open>
  Lines 35 to 42: \<^verbatim>\<open>new(CaptchaImage)\<close> with the canvas of \<^verbatim>\<open>image.NewNRGBA(width, height)\<close>,
  whose pixels are all zero, and the opaque primary colour of three draws.
\<close>

definition new_CaptchaImage :: "int \<Rightarrow> int \<Rightarrow> int \<Rightarrow> int \<Rightarrow> int \<Rightarrow> CaptchaImage" where
  "new_CaptchaImage width height r g b =
     \<lparr>MaxX = width, MaxY = height, Pix = (\<lambda>p. transparent),
      primaryColor = \<lparr>R = word_of_int r, G = word_of_int g, B = word_of_int b, A = 255\<rparr>,
      numWidth = 0, numHeight = 0, dotSize = 0\<rparr>"

definition NewImage ::
  "Font \<Rightarrow> byte list \<Rightarrow> int \<Rightarrow> int \<Rightarrow> RandSource \<Rightarrow> error + (CaptchaImage \<times> RandSource)" where
  "NewImage F numbers width height s =
     (if width < 0 \<or> height < 0 then Inl NegativeSize
      else if numbers = [] then Inl NotFinite
      else
        bindE (Intn 129 s) (\<lambda>(r, s1).
        bindE (Intn 129 s1) (\<lambda>(g, s2).
        bindE (Intn 129 s2) (\<lambda>(b, s3).
          let img = calculateSizes F (new_CaptchaImage width height r g b) width height
                      (int (length numbers))
          in bindE (fillWithCircles img 10 (dotSize img) s3) (\<lambda>(img, s4).
             bindE (NewImage_anchor img width height (int (length numbers)) s4) (\<lambda>((x, y), s5).
             bindE (NewImage_numbers F img numbers x y s5) (\<lambda>(img, s6).
               strikeThrough img s6)))))))"

text \<open>A random source that always yields 0, for concrete inputs.\<close>

definition zeros :: RandSource where
  "zeros = \<lparr>draws = (\<lambda>i. 0), pos = 0\<rparr>"

text \<open>
  \<open>paints c img img'\<close>: \<open>img'\<close> is \<open>img\<close> but for pixels that now have the colour \<open>c\<close>.
\<close>

definition paints :: "NRGBAColor \<Rightarrow> CaptchaImage \<Rightarrow> CaptchaImage \<Rightarrow> bool" where
  "paints c img img' \<longleftrightarrow>
     MaxX img' = MaxX img \<and> MaxY img' = MaxY img \<and> primaryColor img' = primaryColor img \<and>
     numWidth img' = numWidth img \<and> numHeight img' = numHeight img \<and> dotSize img' = dotSize img \<and>
     (\<forall>p. Pix img' p = c \<or> Pix img' p = Pix img p)"

text \<open>
  \<open>sameFields img img'\<close>: the two images differ at most in their pixels. \<open>later s s'\<close>:
  \<open>s'\<close> is the random source \<open>s\<close> after some values have been taken.
\<close>

definition sameFields :: "CaptchaImage \<Rightarrow> CaptchaImage \<Rightarrow> bool" where
  "sameFields img img' \<longleftrightarrow>
     MaxX img' = MaxX img \<and> MaxY img' = MaxY img \<and> primaryColor img' = primaryColor img \<and>
     numWidth img' = numWidth img \<and> numHeight img' = numHeight img \<and> dotSize img' = dotSize img"

definition later :: "RandSource \<Rightarrow> RandSource \<Rightarrow> bool" where
  "later s s' \<longleftrightarrow> draws s' = draws s \<and> pos s \<le> pos s'"

text \<open>An image with a layout, as a sample input.\<close>

definition sampleImage :: CaptchaImage where
  "sampleImage = \<lparr>MaxX = 60, MaxY = 40, Pix = (\<lambda>p. transparent), primaryColor = grey,
                   numWidth = 24, numHeight = 28, dotSize = 4\<rparr>"

text \<open>
  The algorithm of the specification, in its words: the border is \<open>min(width, height) / 5\<close>,
  the usable area \<open>(width - 2 border, height - 2 border)\<close>, the candidate width
  \<open>nw = usableWidth / digitCount\<close>, the candidate height
  \<open>nh = nw * fontHeight / (fontWidth + 1)\<close>; if \<open>nh\<close> exceeds the usable height then
  \<open>nh = usableHeight\<close> and \<open>nw = (fontWidth + 1) / fontHeight * nh\<close>; then
  \<open>dotSize = floor(nh / fontHeight)\<close>, \<open>numWidth = floor(nw)\<close> and
  \<open>numHeight = floor(nh) - dotSize\<close>. The result is \<open>(numWidth, numHeight, dotSize)\<close>.
  The quotients and products are those of \<^verbatim>\<open>float64\<close>, as in the code.
\<close>

definition computeLayout :: "Font \<Rightarrow> int \<Rightarrow> int \<Rightarrow> int \<Rightarrow> int \<times> int \<times> int" where
  "computeLayout F width height digitCount =
     (let border = min width height div 5;
          usableWidth = float64 (width - 2 * border);
          usableHeight = float64 (height - 2 * border);
          fw = f64 (float64 (fontWidth F) + 1);
          fh = float64 (fontHeight F);
          nw = f64 (usableWidth / float64 digitCount);
          nh = f64 (f64 (nw * fh) / fw);
          exceeds = (nh > usableHeight);
          nh = (if exceeds then usableHeight else nh);
          nw = (if exceeds then f64 (f64 (fw / fh) * nh) else nw);
          dotSize = \<lfloor>f64 (nh / fh)\<rfloor>
      in (\<lfloor>nw\<rfloor>, \<lfloor>nh\<rfloor> - dotSize, dotSize))"

section \<open>Properties\<close>

subsection \<open>Rasterizer\<close>

lemma Set_NRGBA_frame [simp]:
  "MaxX (Set_NRGBA img x y c) = MaxX img"
  "MaxY (Set_NRGBA img x y c) = MaxY img"
  "primaryColor (Set_NRGBA img x y c) = primaryColor img"
  "numWidth (Set_NRGBA img x y c) = numWidth img"
  "numHeight (Set_NRGBA img x y c) = numHeight img"
  "dotSize (Set_NRGBA img x y c) = dotSize img"
  by (simp_all add: Set_NRGBA_def inBounds_def)

lemma Pix_Set_NRGBA:
  "Pix (Set_NRGBA img x y c) p =
     (if p = (x, y) \<and> inBounds img x y then c else Pix img p)"
  by (simp add: Set_NRGBA_def)

lemma drawHorizLine_frame [simp]:
  "MaxX (drawHorizLine img c a b y) = MaxX img \<and>
   MaxY (drawHorizLine img c a b y) = MaxY img \<and>
   primaryColor (drawHorizLine img c a b y) = primaryColor img \<and>
   numWidth (drawHorizLine img c a b y) = numWidth img \<and>
   numHeight (drawHorizLine img c a b y) = numHeight img \<and>
   dotSize (drawHorizLine img c a b y) = dotSize img"
proof (induction img c a b y rule: drawHorizLine.induct)
  case (1 img color fromX toX y)
  show ?case
  proof (cases "fromX \<le> toX")
    case True
    with 1 show ?thesis by (subst (1 2 3 4 5 6) drawHorizLine.simps) simp
  next
    case False
    then show ?thesis by (subst (1 2 3 4 5 6) drawHorizLine.simps) simp
  qed
qed

lemma Pix_drawHorizLine:
  "Pix (drawHorizLine img c a b y) (px, py) =
     (if py = y \<and> a \<le> px \<and> px \<le> b \<and>
         0 \<le> px \<and> px < MaxX img \<and> 0 \<le> y \<and> y < MaxY img
      then c else Pix img (px, py))"
proof (induction img c a b y rule: drawHorizLine.induct)
  case (1 img color fromX toX y)
  show ?case
  proof (cases "fromX \<le> toX")
    case True
    with 1 show ?thesis
      by (subst drawHorizLine.simps) (auto simp: Pix_Set_NRGBA inBounds_def)
  next
    case False
    then show ?thesis by (subst drawHorizLine.simps) auto
  qed
qed



lemma paints_refl [simp]: "paints c img img"
  by (simp add: paints_def)

lemma paints_trans: "paints c img1 img2 \<Longrightarrow> paints c img2 img3 \<Longrightarrow> paints c img1 img3"
  unfolding paints_def by metis

lemma paints_Set_NRGBA: "paints c img (Set_NRGBA img x y c)"
  by (simp add: paints_def Pix_Set_NRGBA)

lemma paints_drawHorizLine: "paints c img (drawHorizLine img c a b y)"
  unfolding paints_def using drawHorizLine_frame [of img c a b y]
  by (auto simp: Pix_drawHorizLine)

lemma paints_drawCircle_loop: "paints c img (drawCircle_loop img c x y f dfx dfy xx yy)"
proof (induction img c x y f dfx dfy xx yy rule: drawCircle_loop.induct)
  case (1 img color x y f dfx dfy xx yy)
  show ?case
  proof (cases "xx < yy")
    case True
    define yy1 where "yy1 = (if 0 \<le> f then yy - 1 else yy)"
    define dfy1 where "dfy1 = (if 0 \<le> f then dfy + 2 else dfy)"
    define f1 where "f1 = (if 0 \<le> f then f + dfy1 else f)"
    define img1 where "img1 = drawHorizLine img color (x - (xx + 1)) (x + (xx + 1)) (y + yy1)"
    define img2 where "img2 = drawHorizLine img1 color (x - (xx + 1)) (x + (xx + 1)) (y - yy1)"
    define img3 where "img3 = drawHorizLine img2 color (x - yy1) (x + yy1) (y + (xx + 1))"
    define img4 where "img4 = drawHorizLine img3 color (x - yy1) (x + yy1) (y - (xx + 1))"
    have step: "drawCircle_loop img color x y f dfx dfy xx yy =
        drawCircle_loop img4 color x y (f1 + (dfx + 2)) (dfx + 2) dfy1 (xx + 1) yy1"
      using True
      by (subst drawCircle_loop.simps)
         (simp only: Let_def if_True yy1_def dfy1_def f1_def img1_def img2_def img3_def img4_def)
    have ih: "paints color img4 (drawCircle_loop img4 color x y (f1 + (dfx + 2)) (dfx + 2) dfy1 (xx + 1) yy1)"
      using "1.IH" [OF True yy1_def dfy1_def f1_def refl refl refl img1_def img2_def img3_def img4_def] .
    have "paints color img img1" unfolding img1_def by (rule paints_drawHorizLine)
    moreover have "paints color img1 img2" unfolding img2_def by (rule paints_drawHorizLine)
    moreover have "paints color img2 img3" unfolding img3_def by (rule paints_drawHorizLine)
    moreover have "paints color img3 img4" unfolding img4_def by (rule paints_drawHorizLine)
    ultimately have "paints color img img4" by (blast intro: paints_trans)
    with ih show ?thesis unfolding step by (blast intro: paints_trans)
  next
    case False
    then show ?thesis by (subst drawCircle_loop.simps) simp
  qed
qed


lemma paints_keeps: "paints c img img' \<Longrightarrow> Pix img p = c \<Longrightarrow> Pix img' p = c"
  unfolding paints_def by metis

lemma drawCircle_loop_done:
  "\<not> xx < yy \<Longrightarrow> drawCircle_loop img c x y f dfx dfy xx yy = img"
  by (subst drawCircle_loop.simps) simp

lemma paints_drawCircle: "paints c img (drawCircle img c x y r)"
proof -
  have "paints c img (Set_NRGBA img x (y + r) c)" by (rule paints_Set_NRGBA)
  moreover have "paints c (Set_NRGBA img x (y + r) c) (Set_NRGBA (Set_NRGBA img x (y + r) c) x (y - r) c)"
    by (rule paints_Set_NRGBA)
  ultimately show ?thesis
    unfolding drawCircle_def Let_def
    by (blast intro: paints_trans paints_drawHorizLine paints_drawCircle_loop)
qed

lemma drawCircle_frame [simp]:
  "MaxX (drawCircle img c x y r) = MaxX img"
  "MaxY (drawCircle img c x y r) = MaxY img"
  "primaryColor (drawCircle img c x y r) = primaryColor img"
  "numWidth (drawCircle img c x y r) = numWidth img"
  "numHeight (drawCircle img c x y r) = numHeight img"
  "dotSize (drawCircle img c x y r) = dotSize img"
  using paints_drawCircle [of c img x y r] by (simp_all add: paints_def)

lemma inBounds_Set_NRGBA [simp]: "inBounds (Set_NRGBA img x y c) a b = inBounds img a b"
  by (simp add: inBounds_def)

text \<open>
  C4. \<^verbatim>\<open>drawCircle\<close> gives the colour to the pixel \<open>(cx, cy + r)\<close>, to the pixel
  \<open>(cx, cy - r)\<close> and to every pixel of the span \<open>[cx - r, cx + r]\<close> of row \<open>cy\<close>,
  each of them as far as it lies inside the canvas. This holds for every radius, so
  for every \<open>r \<ge> 1\<close>.
\<close>

theorem drawCircle_sets_extremes:
  "(inBounds img cx (cy + r) \<longrightarrow> Pix (drawCircle img c cx cy r) (cx, cy + r) = c) \<and>
   (inBounds img cx (cy - r) \<longrightarrow> Pix (drawCircle img c cx cy r) (cx, cy - r) = c) \<and>
   (\<forall>px. cx - r \<le> px \<and> px \<le> cx + r \<and> inBounds img px cy
      \<longrightarrow> Pix (drawCircle img c cx cy r) (px, cy) = c)"
proof -
  let ?i1 = "Set_NRGBA img cx (cy + r) c"
  let ?i2 = "Set_NRGBA ?i1 cx (cy - r) c"
  let ?i3 = "drawHorizLine ?i2 c (cx - r) (cx + r) cy"
  have loop: "Pix ?i3 p = c \<Longrightarrow> Pix (drawCircle img c cx cy r) p = c" for p
    unfolding drawCircle_def Let_def by (rule paints_keeps [OF paints_drawCircle_loop])
  have a: "inBounds img cx (cy + r) \<Longrightarrow> Pix ?i3 (cx, cy + r) = c"
    by (simp add: Pix_drawHorizLine Pix_Set_NRGBA)
  have b: "inBounds img cx (cy - r) \<Longrightarrow> Pix ?i3 (cx, cy - r) = c"
    by (simp add: Pix_drawHorizLine Pix_Set_NRGBA)
  have d: "cx - r \<le> px \<Longrightarrow> px \<le> cx + r \<Longrightarrow> inBounds img px cy \<Longrightarrow> Pix ?i3 (px, cy) = c" for px
    by (simp add: Pix_drawHorizLine inBounds_def)
  from a b d loop show ?thesis by blast
qed

theorem drawCircle_sets_extremes_witness:
  "inBounds blank3 1 (1 + 1) \<and> inBounds blank3 1 (1 - 1) \<and>
   inBounds blank3 0 1 \<and> inBounds blank3 1 1 \<and> inBounds blank3 2 1 \<and>
   Pix (drawCircle blank3 grey 1 1 1) (1, 2) = grey \<and>
   Pix (drawCircle blank3 grey 1 1 1) (1, 0) = grey \<and>
   Pix (drawCircle blank3 grey 1 1 1) (0, 1) = grey \<and>
   Pix (drawCircle blank3 grey 1 1 1) (1, 1) = grey \<and>
   Pix (drawCircle blank3 grey 1 1 1) (2, 1) = grey"
proof -
  have ib: "inBounds blank3 1 (1 + 1)" "inBounds blank3 1 (1 - 1)"
    "inBounds blank3 0 1" "inBounds blank3 1 1" "inBounds blank3 2 1"
    by (simp_all add: inBounds_def blank3_def)
  with drawCircle_sets_extremes [of blank3 1 1 1 grey] show ?thesis by simp
qed

text \<open>
  C5, as amended. For a radius \<open>r \<le> 0\<close> the loop of \<^verbatim>\<open>drawCircle\<close> is not entered and
  the span of row \<open>cy\<close> is empty or the centre alone, so no pixel other than
  \<open>(cx, cy + r)\<close> and \<open>(cx, cy - r)\<close> changes; for \<open>r = 0\<close> both are the centre. The
  function is total: it returns for every radius.
\<close>

theorem drawCircle_nonpositive_radius:
  "r \<le> 0 \<Longrightarrow>
     (\<forall>p. p \<noteq> (cx, cy + r) \<and> p \<noteq> (cx, cy - r)
        \<longrightarrow> Pix (drawCircle img c cx cy r) p = Pix img p) \<and>
     (r = 0 \<longrightarrow> (\<forall>p. p \<noteq> (cx, cy) \<longrightarrow> Pix (drawCircle img c cx cy r) p = Pix img p))"
proof -
  assume r: "r \<le> 0"
  let ?i1 = "Set_NRGBA img cx (cy + r) c"
  let ?i2 = "Set_NRGBA ?i1 cx (cy - r) c"
  let ?i3 = "drawHorizLine ?i2 c (cx - r) (cx + r) cy"
  have eq: "drawCircle img c cx cy r = ?i3"
    using r by (simp add: drawCircle_def Let_def drawCircle_loop_done)
  have "Pix ?i3 (px, py) = Pix img (px, py)"
    if "(px, py) \<noteq> (cx, cy + r)" "(px, py) \<noteq> (cx, cy - r)" for px py
    using that r by (auto simp: Pix_drawHorizLine Pix_Set_NRGBA)
  with eq show ?thesis by auto
qed

theorem drawCircle_nonpositive_radius_witness:
  "(- 1::int) \<le> 0 \<and> (0::int, 0::int) \<noteq> (1, 1 + (- 1)) \<and> (0::int, 0::int) \<noteq> (1, 1 - (- 1)) \<and>
   Pix (drawCircle blank3 grey 1 1 (- 1)) (0, 0) = Pix blank3 (0, 0)"
  using drawCircle_nonpositive_radius [of "- 1" 1 1 blank3 grey]
  by simp

text \<open>
  C5 as stated fails for a negative radius: with \<open>r = -1\<close> and the centre \<open>(1, 1)\<close> on
  a blank canvas, the pixel \<open>(1, 0)\<close>, which is not the centre, changes.
\<close>

theorem drawCircle_negative_radius_counterexample:
  "(- 1::int) \<le> 0 \<and> (1::int, 0::int) \<noteq> (1, 1) \<and>
   Pix (drawCircle blank3 grey 1 1 (- 1)) (1, 0) \<noteq> Pix blank3 (1, 0)"
  by (simp add: drawCircle_def Let_def drawCircle_loop_done Pix_drawHorizLine Pix_Set_NRGBA
      inBounds_def blank3_def grey_def transparent_def)

subsection \<open>Brightness\<close>


lemma bindE_simps [simp]:
  "bindE (Inl e) f = Inl e"
  "bindE (Inr v) f = f v"
  by (simp_all add: bindE_def)

lemma bindE_eq_Inr:
  "bindE m f = Inr r \<longleftrightarrow> (\<exists>v. m = Inr v \<and> f v = Inr r)"
  by (cases m) simp_all

lemma min3_le:
  "uint (min3 x y z) \<le> uint x" "uint (min3 x y z) \<le> uint y" "uint (min3 x y z) \<le> uint z"
  by (auto simp: min3_def Let_def word_less_def word_le_def)

lemma max3_ge:
  "uint x \<le> uint (max3 x y z)" "uint y \<le> uint (max3 x y z)" "uint z \<le> uint (max3 x y z)"
  by (auto simp: max3_def Let_def word_less_def word_le_def)

lemma uint_byte_add:
  assumes "0 \<le> uint (x::byte) + n" "uint x + n < 256"
  shows "uint (x + word_of_int n) = uint x + n"
proof -
  have "x + word_of_int n = (word_of_int (uint x + n) :: byte)" by simp
  moreover have "uint (word_of_int (uint x + n) :: byte) = (uint x + n) mod 2 ^ LENGTH(8)"
    by (rule uint_word_of_int)
  ultimately show ?thesis using assms by simp
qed

lemma Intn_Inr:
  "0 < n \<Longrightarrow> Intn n s = Inr (int (draws s (pos s)) mod n, s\<lparr>pos := Suc (pos s)\<rparr>)"
  by (simp add: Intn_def)

lemma Intn_Inl: "n \<le> 0 \<Longrightarrow> Intn n s = Inl (IntnNonPositive n)"
  by (simp add: Intn_def)




lemma setRandomBrightness_jitter:
  fixes c :: NRGBAColor and mx :: byte and s :: RandSource
  assumes lt: "max3 (R c) (G c) (B c) < mx"
  defines "n \<equiv> int (draws s (pos s)) mod (uint mx - uint (max3 (R c) (G c) (B c))) - uint (min3 (R c) (G c) (B c))"
  defines "c' \<equiv> c\<lparr>R := word_of_int (uint (R c) + n), G := word_of_int (uint (G c) + n),
                    B := word_of_int (uint (B c) + n)\<rparr>"
  shows "setRandomBrightness c mx s = Inr (c', s\<lparr>pos := Suc (pos s)\<rparr>)"
    and "uint (R c') = uint (R c) + n" and "uint (G c') = uint (G c) + n"
    and "uint (B c') = uint (B c) + n"
    and "R c' < mx" and "G c' < mx" and "B c' < mx"
proof -
  let ?maxc = "max3 (R c) (G c) (B c)" and ?minc = "min3 (R c) (G c) (B c)"
  let ?k = "uint mx - uint ?maxc"
  have le: "uint ?maxc < uint mx" using lt by (simp add: word_less_def)
  then have sub: "uint (mx - ?maxc) = ?k"
    using uint_sub_lem [of ?maxc mx] by simp
  have kpos: "0 < ?k" using le by simp
  have v: "0 \<le> int (draws s (pos s)) mod ?k" "int (draws s (pos s)) mod ?k < ?k"
    using kpos by simp_all
  show "setRandomBrightness c mx s = Inr (c', s\<lparr>pos := Suc (pos s)\<rparr>)"
    using lt kpos by (simp add: setRandomBrightness_def Let_def sub Intn_Inr c'_def n_def)
  have mxb: "uint mx < 256" using uint_lt2p [of mx] by simp
  have rng: "0 \<le> uint x + n \<and> uint x + n < uint mx"
    if "uint ?minc \<le> uint x" "uint x \<le> uint ?maxc" for x :: byte
    using that v uint_ge_0 [of ?minc] unfolding n_def by arith
  have r: "0 \<le> uint (R c) + n \<and> uint (R c) + n < uint mx"
    by (rule rng) (simp_all add: min3_le max3_ge)
  have g: "0 \<le> uint (G c) + n \<and> uint (G c) + n < uint mx"
    by (rule rng) (simp_all add: min3_le max3_ge)
  have b: "0 \<le> uint (B c) + n \<and> uint (B c) + n < uint mx"
    by (rule rng) (simp_all add: min3_le max3_ge)
  show "uint (R c') = uint (R c) + n" using r mxb by (simp add: c'_def uint_byte_add)
  moreover show "uint (G c') = uint (G c) + n" using g mxb by (simp add: c'_def uint_byte_add)
  moreover show "uint (B c') = uint (B c) + n" using b mxb by (simp add: c'_def uint_byte_add)
  ultimately show "R c' < mx" "G c' < mx" "B c' < mx"
    using r g b by (simp_all add: word_less_def)
qed




subsection \<open>Frame conditions and normal return\<close>


lemma sameFields_refl [simp]: "sameFields img img"
  by (simp add: sameFields_def)

lemma sameFields_trans: "sameFields a b \<Longrightarrow> sameFields b c \<Longrightarrow> sameFields a c"
  by (simp add: sameFields_def)

lemma sameFields_drawCircle [simp]: "sameFields img (drawCircle img c x y r)"
  by (simp add: sameFields_def)

lemma paints_sameFields: "paints c img img' \<Longrightarrow> sameFields img img'"
  by (simp add: paints_def sameFields_def)

lemma later_refl [simp]: "later s s"
  by (simp add: later_def)

lemma later_trans: "later a b \<Longrightarrow> later b c \<Longrightarrow> later a c"
  by (simp add: later_def)

lemma Intn_later: "Intn n s = Inr (v, s') \<Longrightarrow> later s s'"
  by (auto simp: Intn_def later_def split: if_splits)

lemma rnd_later: "rnd a b s = Inr (v, s') \<Longrightarrow> later s s'"
  by (drule rnd_range) (simp add: later_def)

lemma Float64_later: "Float64 s = (u, s') \<Longrightarrow> later s s'"
  by (auto simp: Float64_def later_def)

lemma setRandomBrightness_later: "setRandomBrightness c mx s = Inr (c', s') \<Longrightarrow> later s s'"
  by (auto simp: setRandomBrightness_def Let_def bindE_eq_Inr dest: Intn_later split: if_splits)

lemma fillWithCircles_loop_frame:
  "fillWithCircles_loop img color maxx maxy n maxr i s = Inr (img', s')
     \<Longrightarrow> sameFields img img' \<and> later s s'"
proof (induction "nat (n - i)" arbitrary: img color i s)
  case 0
  then have "\<not> i < n" by simp
  with 0(2) show ?case by (subst (asm) fillWithCircles_loop.simps) simp
next
  case (Suc k)
  then have lt: "i < n" and k: "k = nat (n - (i + 1))" by simp_all
  from Suc(3) lt obtain c1 s1 r s2 x s3 y s4 where
    b: "setRandomBrightness color 255 s = Inr (c1, s1)" and
    r: "rnd 1 maxr s1 = Inr (r, s2)" and
    x: "rnd r (maxx - r) s2 = Inr (x, s3)" and
    y: "rnd r (maxy - r) s3 = Inr (y, s4)" and
    rest: "fillWithCircles_loop (drawCircle img c1 x y r) c1 maxx maxy n maxr (i + 1) s4 = Inr (img', s')"
    by (subst (asm) fillWithCircles_loop.simps) (auto simp: bindE_eq_Inr)
  from Suc(1) [OF k rest] have ih: "sameFields (drawCircle img c1 x y r) img'" "later s4 s'"
    by simp_all
  have "sameFields img img'"
    using sameFields_drawCircle ih(1) by (rule sameFields_trans)
  moreover have "later s s'"
    using setRandomBrightness_later [OF b] rnd_later [OF r] rnd_later [OF x] rnd_later [OF y] ih(2)
    by (blast intro: later_trans)
  ultimately show ?case by simp
qed


lemma fillWithCircles_frame:
  "fillWithCircles img n maxr s = Inr (img', s') \<Longrightarrow> sameFields img img' \<and> later s s'"
  unfolding fillWithCircles_def by (rule fillWithCircles_loop_frame)

lemma paints_step:
  "primaryColor img = c \<Longrightarrow> paints (primaryColor (drawCircle img c x y r)) (drawCircle img c x y r) img'
     \<Longrightarrow> paints c img img'"
  using paints_drawCircle [of c img x y r] by (auto intro: paints_trans)

lemma strikeThrough_loop_frame:
  "strikeThrough_loop img maxx maxy x y s = Inr (img', s')
     \<Longrightarrow> paints (primaryColor img) img img' \<and> later s s'"
proof (induction "nat (maxx - x)" arbitrary: img x y s rule: less_induct)
  case less
  show ?case
  proof (cases "x < maxx")
    case False
    with less(2) show ?thesis by (subst (asm) strikeThrough_loop.simps) simp
  next
    case True
    from less(2) True obtain r s1 dy s2 y' s3 where
      r: "rnd 1 (quo (dotSize img) 2 - 1) s = Inr (r, s1)" and
      dy: "rnd (quo (- dotSize img) 2) (quo (dotSize img) 2) s1 = Inr (dy, s2)" and
      y': "(if y + dy \<le> 0 \<or> y + dy \<ge> maxy then rnd (quo maxy 3) (maxy - quo maxy 3) s2
           else Inr (y + dy, s2)) = Inr (y', s3)" and
      rest: "strikeThrough_loop (drawCircle img (primaryColor img) x y' r) maxx maxy (x + r) y' s3
             = Inr (img', s')"
      by (subst (asm) strikeThrough_loop.simps) (auto simp: bindE_eq_Inr)
    from rnd_range [OF r] have "1 \<le> r" by simp
    with True have "nat (maxx - (x + r)) < nat (maxx - x)" by simp
    from less(1) [OF this rest]
    have ih: "paints (primaryColor (drawCircle img (primaryColor img) x y' r))
                (drawCircle img (primaryColor img) x y' r) img'" "later s3 s'"
      by simp_all
    have l3: "later s2 s3" using y' by (auto split: if_splits dest: rnd_later)
    have "paints (primaryColor img) img img'" using refl ih(1) by (rule paints_step)
    moreover have "later s s'"
      using rnd_later [OF r] rnd_later [OF dy] l3 ih(2) by (blast intro: later_trans)
    ultimately show ?thesis by simp
  qed
qed

lemma strikeThrough_frame:
  "strikeThrough img s = Inr (img', s') \<Longrightarrow> paints (primaryColor img) img img' \<and> later s s'"
proof -
  assume "strikeThrough img s = Inr (img', s')"
  then obtain y s1 where y: "rnd (quo (MaxY img) 3) (MaxY img - quo (MaxY img) 3) s = Inr (y, s1)"
    and l: "strikeThrough_loop img (MaxX img) (MaxY img) 0 y s1 = Inr (img', s')"
    by (auto simp: strikeThrough_def Let_def bindE_eq_Inr)
  from strikeThrough_loop_frame [OF l] rnd_later [OF y] show ?thesis
    by (blast intro: later_trans)
qed

lemma drawNumber_cols_frame:
  "drawNumber_cols F img number x y minr maxr yy xx s = Inr (img', s')
     \<Longrightarrow> paints (primaryColor img) img img' \<and> later s s'"
proof (induction "nat (fontWidth F - xx)" arbitrary: img xx s)
  case 0
  then have "\<not> xx < fontWidth F" by simp
  with 0(2) show ?case by (subst (asm) drawNumber_cols.simps) simp
next
  case (Suc k)
  then have lt: "xx < fontWidth F" and k: "k = nat (fontWidth F - (xx + 1))" by simp_all
  show ?case
  proof (cases "number ! nat (yy * fontWidth F + xx) \<noteq> blackChar F")
    case True
    with Suc(3) lt have
      "drawNumber_cols F img number x y minr maxr yy (xx + 1) s = Inr (img', s')"
      by (subst (asm) drawNumber_cols.simps) (simp split: if_splits)
    from Suc(1) [OF k this] show ?thesis .
  next
    case False
    with Suc(3) lt obtain r s1 dx s2 dy s3 where
      r: "rnd minr maxr s = Inr (r, s1)" and
      dx: "rnd 0 (quo r 2) s1 = Inr (dx, s2)" and
      dy: "rnd 0 (quo r 2) s2 = Inr (dy, s3)" and
      rest: "drawNumber_cols F
               (drawCircle img (primaryColor img) (x + (xx * dotSize img) + dx)
                  (y + (yy * dotSize img) + dy) r)
               number x y minr maxr yy (xx + 1) s3 = Inr (img', s')"
      by (subst (asm) drawNumber_cols.simps) (auto simp: bindE_eq_Inr split: if_splits)
    from Suc(1) [OF k rest]
    have ih: "paints (primaryColor (drawCircle img (primaryColor img) (x + (xx * dotSize img) + dx)
                  (y + (yy * dotSize img) + dy) r))
                (drawCircle img (primaryColor img) (x + (xx * dotSize img) + dx)
                  (y + (yy * dotSize img) + dy) r) img'" "later s3 s'"
      by simp_all
    have "paints (primaryColor img) img img'" using refl ih(1) by (rule paints_step)
    moreover have "later s s'"
      using rnd_later [OF r] rnd_later [OF dx] rnd_later [OF dy] ih(2)
      by (blast intro: later_trans)
    ultimately show ?thesis by simp
  qed
qed

lemma paints_chain:
  "paints (primaryColor img) img img1 \<Longrightarrow> paints (primaryColor img1) img1 img2
     \<Longrightarrow> paints (primaryColor img) img img2"
proof -
  assume a: "paints (primaryColor img) img img1" and b: "paints (primaryColor img1) img1 img2"
  from a have "primaryColor img1 = primaryColor img" by (simp add: paints_def)
  with b have "paints (primaryColor img) img1 img2" by simp
  with a show ?thesis by (rule paints_trans)
qed

lemma drawNumber_rows_frame:
  "drawNumber_rows F img number x y minr maxr skf xs yy s = Inr (img', s')
     \<Longrightarrow> paints (primaryColor img) img img' \<and> later s s'"
proof (induction "nat (fontHeight F - yy)" arbitrary: img x xs yy s)
  case 0
  then have "\<not> yy < fontHeight F" by simp
  with 0(2) show ?case by (subst (asm) drawNumber_rows.simps) simp
next
  case (Suc k)
  then have lt: "yy < fontHeight F" and k: "k = nat (fontHeight F - (yy + 1))" by simp_all
  from Suc(3) lt obtain img1 s1 where
    c: "drawNumber_cols F img number x y minr maxr yy 0 s = Inr (img1, s1)" and
    rest: "drawNumber_rows F img1 number (trunc (f64 (xs + skf))) y minr maxr skf (f64 (xs + skf))
             (yy + 1) s1 = Inr (img', s')"
    by (subst (asm) drawNumber_rows.simps) (auto simp: bindE_eq_Inr)
  from drawNumber_cols_frame [OF c] Suc(1) [OF k rest] show ?case
    by (blast intro: later_trans paints_chain)
qed

lemma drawNumber_frame:
  "drawNumber F img number x y s = Inr (img', s')
     \<Longrightarrow> paints (primaryColor img) img img' \<and> later s s'"
proof -
  assume a: "drawNumber F img number x y s = Inr (img', s')"
  obtain u s1 where f: "Float64 s = (u, s1)" by (cases "Float64 s")
  with a obtain k s2 dy s3 where
    k: "rnd (- maxSkew) maxSkew s1 = Inr (k, s2)" and
    dy: "rnd (- quo (dotSize img) 2) (quo (dotSize img) 2) s2 = Inr (dy, s3)" and
    rows: "drawNumber_rows F img number x (y + dy) (quo (dotSize img) 2)
             (quo (dotSize img) 2 + quo (dotSize img) 4) (f64 (u * float64 k)) (float64 x) 0 s3
           = Inr (img', s')"
    by (auto simp: drawNumber_def Let_def bindE_eq_Inr)
  from drawNumber_rows_frame [OF rows] Float64_later [OF f] rnd_later [OF k] rnd_later [OF dy]
  show ?thesis by (blast intro: later_trans)
qed

lemma NewImage_numbers_frame:
  "NewImage_numbers F img numbers x y s = Inr (img', s')
     \<Longrightarrow> paints (primaryColor img) img img' \<and> later s s'"
proof (induction numbers arbitrary: img x s)
  case Nil
  then show ?case by simp
next
  case (Cons n numbers)
  from Cons(2) obtain img1 s1 where
    d: "drawNumber F img (font F ! unat n) x y s = Inr (img1, s1)" and
    rest: "NewImage_numbers F img1 numbers (x + (numWidth img1 + dotSize img1)) y s1 = Inr (img', s')"
    by (auto simp: bindE_eq_Inr split: if_splits)
  from drawNumber_frame [OF d] Cons(1) [OF rest] show ?case
    by (blast intro: later_trans paints_chain)
qed


lemma quo_nonneg: "0 \<le> a \<Longrightarrow> 0 < b \<Longrightarrow> quo a b = a div b"
  by (cases "a = 0") (simp_all add: quo_def)

lemma quo_nonpos: "a \<le> 0 \<Longrightarrow> 0 < b \<Longrightarrow> quo a b = - ((- a) div b)"
  by (cases "a = 0") (simp_all add: quo_def)

lemma rnd_ok: "from \<le> to \<Longrightarrow> \<exists>v s'. rnd from to s = Inr (v, s')"
  by (simp add: rnd_def Intn_def)

lemma strikeThrough_loop_returns:
  "4 \<le> dotSize img \<Longrightarrow> 0 \<le> maxy \<Longrightarrow>
     \<exists>img' s'. strikeThrough_loop img maxx maxy x y s = Inr (img', s') \<and>
        pos s' \<le> pos s + 3 * nat (maxx - x)"
proof (induction "nat (maxx - x)" arbitrary: img x y s rule: less_induct)
  case less
  show ?case
  proof (cases "x < maxx")
    case False
    then show ?thesis by (subst strikeThrough_loop.simps) simp
  next
    case True
    let ?d = "dotSize img"
    have q: "quo ?d 2 = ?d div 2" "quo (- ?d) 2 = - (?d div 2)"
      using less(2) by (simp_all add: quo_nonneg quo_nonpos)
    have q3: "quo maxy 3 = maxy div 3" using less(3) by (simp add: quo_nonneg)
    have "1 \<le> quo ?d 2 - 1" using less(2) q by simp
    from rnd_ok [OF this] obtain r s1 where r: "rnd 1 (quo ?d 2 - 1) s = Inr (r, s1)" by blast
    have "quo (- ?d) 2 \<le> quo ?d 2" using less(2) q by simp
    from rnd_ok [OF this] obtain dy s2 where
      dy: "rnd (quo (- ?d) 2) (quo ?d 2) s1 = Inr (dy, s2)" by blast
    have "quo maxy 3 \<le> maxy - quo maxy 3" using less(3) q3 by simp
    from rnd_ok [OF this] obtain y0 s0 where
      y0: "rnd (quo maxy 3) (maxy - quo maxy 3) s2 = Inr (y0, s0)" by blast
    define y' where "y' = (if y + dy \<le> 0 \<or> y + dy \<ge> maxy then y0 else y + dy)"
    define s3 where "s3 = (if y + dy \<le> 0 \<or> y + dy \<ge> maxy then s0 else s2)"
    have y': "(if y + dy \<le> 0 \<or> y + dy \<ge> maxy then rnd (quo maxy 3) (maxy - quo maxy 3) s2
               else Inr (y + dy, s2)) = Inr (y', s3)"
      using y0 by (simp add: y'_def s3_def)
    have p3: "pos s3 \<le> pos s + 3"
      using rnd_range [OF r] rnd_range [OF dy] rnd_range [OF y0] by (simp add: s3_def)
    from rnd_range [OF r] have r1: "1 \<le> r" by simp
    with True have m: "nat (maxx - (x + r)) < nat (maxx - x)" by simp
    have d': "4 \<le> dotSize (drawCircle img (primaryColor img) x y' r)" using less(2) by simp
    from less(1) [OF m d' less(3)] obtain img' s' where
      rest: "strikeThrough_loop (drawCircle img (primaryColor img) x y' r) maxx maxy (x + r) y' s3
             = Inr (img', s')" and
      ps: "pos s' \<le> pos s3 + 3 * nat (maxx - (x + r))" by blast
    have eq: "strikeThrough_loop img maxx maxy x y s = Inr (img', s')"
      using True r dy y' rest by (subst strikeThrough_loop.simps) simp
    have "3 + 3 * nat (maxx - (x + r)) \<le> 3 * nat (maxx - x)" using m by linarith
    with ps p3 have "pos s' \<le> pos s + 3 * nat (maxx - x)" by simp
    with eq show ?thesis by blast
  qed
qed

text \<open>
  C9. For an image with \<open>dotSize \<ge> 4\<close> (and a canvas of height at least 0, as every
  allocated canvas has) \<^verbatim>\<open>strikeThrough\<close> returns normally, for every random source:
  each iteration of its loop draws a step \<open>r \<ge> 1\<close> and moves \<open>x\<close> by it, so there are
  at most \<open>MaxX img\<close> iterations, each taking at most three values from the random
  source after the one taken for the first \<open>y\<close>.
\<close>

theorem strikeThrough_terminates:
  assumes "4 \<le> dotSize img" and "0 \<le> MaxY img"
  shows "\<exists>img' s'. strikeThrough img s = Inr (img', s') \<and>
           pos s' \<le> pos s + 1 + 3 * nat (MaxX img)"
proof -
  have "quo (MaxY img) 3 \<le> MaxY img - quo (MaxY img) 3"
    using assms(2) by (simp add: quo_nonneg)
  from rnd_ok [OF this] obtain y s1 where
    y: "rnd (quo (MaxY img) 3) (MaxY img - quo (MaxY img) 3) s = Inr (y, s1)" by blast
  from strikeThrough_loop_returns [OF assms, of "MaxX img" 0 y s1] obtain img' s' where
    l: "strikeThrough_loop img (MaxX img) (MaxY img) 0 y s1 = Inr (img', s')" and
    p: "pos s' \<le> pos s1 + 3 * nat (MaxX img)" by auto
  from y l have "strikeThrough img s = Inr (img', s')"
    by (simp add: strikeThrough_def Let_def)
  moreover from rnd_range [OF y] p have "pos s' \<le> pos s + 1 + 3 * nat (MaxX img)" by simp
  ultimately show ?thesis by blast
qed


theorem strikeThrough_terminates_witness:
  "4 \<le> dotSize sampleImage \<and> 0 \<le> MaxY sampleImage \<and>
   (\<exists>img' s'. strikeThrough sampleImage zeros = Inr (img', s') \<and>
      pos s' \<le> pos zeros + 1 + 3 * nat (MaxX sampleImage))"
proof -
  have h: "4 \<le> dotSize sampleImage" "0 \<le> MaxY sampleImage"
    by (simp_all add: sampleImage_def)
  from h strikeThrough_terminates [OF h, of zeros] show ?thesis by simp
qed

lemma max3_less: "x < m \<Longrightarrow> y < m \<Longrightarrow> z < m \<Longrightarrow> max3 x y z < m"
  by (simp add: max3_def Let_def)

lemma setRandomBrightness_returns:
  assumes "max3 (R c) (G c) (B c) < mx"
  shows "\<exists>c' s'. setRandomBrightness c mx s = Inr (c', s') \<and> max3 (R c') (G c') (B c') < mx"
  using setRandomBrightness_jitter(1,5,6,7) [OF assms, of s] max3_less by blast

lemma fillWithCircles_loop_returns:
  "max3 (R color) (G color) (B color) < 255 \<Longrightarrow> 1 \<le> maxr \<Longrightarrow> 2 * maxr \<le> maxx \<Longrightarrow>
   2 * maxr \<le> maxy \<Longrightarrow>
     \<exists>img' s'. fillWithCircles_loop img color maxx maxy n maxr i s = Inr (img', s')"
proof (induction "nat (n - i)" arbitrary: img color i s)
  case 0
  then have "\<not> i < n" by simp
  then show ?case by (subst fillWithCircles_loop.simps) simp
next
  case (Suc k)
  then have lt: "i < n" and k: "k = nat (n - (i + 1))" by simp_all
  from setRandomBrightness_returns [OF Suc(3)] obtain c1 s1 where
    b: "setRandomBrightness color 255 s = Inr (c1, s1)" and
    c1: "max3 (R c1) (G c1) (B c1) < 255" by blast
  from rnd_ok [OF Suc(4)] obtain r s2 where r: "rnd 1 maxr s1 = Inr (r, s2)" by blast
  from rnd_range [OF r] have rr: "1 \<le> r" "r \<le> maxr" by simp_all
  have "r \<le> maxx - r" using rr Suc(5) by simp
  from rnd_ok [OF this] obtain x s3 where x: "rnd r (maxx - r) s2 = Inr (x, s3)" by blast
  have "r \<le> maxy - r" using rr Suc(6) by simp
  from rnd_ok [OF this] obtain y s4 where y: "rnd r (maxy - r) s3 = Inr (y, s4)" by blast
  from Suc(1) [OF k c1 Suc(4) Suc(5) Suc(6)] obtain img' s' where
    "fillWithCircles_loop (drawCircle img c1 x y r) c1 maxx maxy n maxr (i + 1) s4 = Inr (img', s')"
    by blast
  with lt b r x y have "fillWithCircles_loop img color maxx maxy n maxr i s = Inr (img', s')"
    by (subst fillWithCircles_loop.simps) simp
  then show ?case by blast
qed

lemma fillWithCircles_returns:
  "max3 (R (primaryColor img)) (G (primaryColor img)) (B (primaryColor img)) < 255 \<Longrightarrow>
   1 \<le> maxr \<Longrightarrow> 2 * maxr \<le> MaxX img \<Longrightarrow> 2 * maxr \<le> MaxY img \<Longrightarrow>
     \<exists>img' s'. fillWithCircles img n maxr s = Inr (img', s')"
  unfolding fillWithCircles_def by (rule fillWithCircles_loop_returns)

text \<open>
  C10. A call of \<^verbatim>\<open>fillWithCircles\<close> that returns leaves \<open>primaryColor\<close>, \<open>numWidth\<close>,
  \<open>numHeight\<close>, \<open>dotSize\<close> and the bounds as they were: only pixels (and the random
  source) change, since the brightness is set on the local copy \<open>color\<close>. So a later
  \<^verbatim>\<open>drawNumber\<close> or \<^verbatim>\<open>strikeThrough\<close> on that image changes a pixel only to the primary
  colour the image had before \<^verbatim>\<open>fillWithCircles\<close>.
\<close>

theorem fillWithCircles_frame_effect:
  assumes "fillWithCircles img n maxradius s = Inr (img1, s1)"
  shows "primaryColor img1 = primaryColor img \<and> numWidth img1 = numWidth img \<and>
         numHeight img1 = numHeight img \<and> dotSize img1 = dotSize img \<and>
         MaxX img1 = MaxX img \<and> MaxY img1 = MaxY img \<and>
         (\<forall>F number x y s2 img2 s3.
            drawNumber F img1 number x y s2 = Inr (img2, s3)
              \<longrightarrow> paints (primaryColor img) img1 img2) \<and>
         (\<forall>s2 img2 s3.
            strikeThrough img1 s2 = Inr (img2, s3) \<longrightarrow> paints (primaryColor img) img1 img2)"
proof -
  from fillWithCircles_frame [OF assms] have f: "sameFields img img1" by simp
  then have pc: "primaryColor img1 = primaryColor img" by (simp add: sameFields_def)
  have "paints (primaryColor img) img1 img2"
    if "drawNumber F img1 number x y s2 = Inr (img2, s3)" for F number x y s2 img2 s3
    using drawNumber_frame [OF that] pc by simp
  moreover have "paints (primaryColor img) img1 img2"
    if "strikeThrough img1 s2 = Inr (img2, s3)" for s2 img2 s3
    using strikeThrough_frame [OF that] pc by simp
  ultimately show ?thesis using f by (simp add: sameFields_def)
qed

theorem fillWithCircles_frame_effect_witness:
  "\<exists>img1 s1 img2 s2.
     fillWithCircles sampleImage 10 (dotSize sampleImage) zeros = Inr (img1, s1) \<and>
     strikeThrough img1 s1 = Inr (img2, s2) \<and>
     primaryColor img1 = primaryColor sampleImage \<and> numWidth img1 = numWidth sampleImage \<and>
     numHeight img1 = numHeight sampleImage \<and> dotSize img1 = dotSize sampleImage \<and>
     MaxX img1 = MaxX sampleImage \<and> MaxY img1 = MaxY sampleImage \<and>
     paints (primaryColor sampleImage) img1 img2"
proof -
  have "max3 (R (primaryColor sampleImage)) (G (primaryColor sampleImage))
          (B (primaryColor sampleImage)) < 255"
    by (simp add: sampleImage_def grey_def max3_def)
  moreover have "1 \<le> dotSize sampleImage" "2 * dotSize sampleImage \<le> MaxX sampleImage"
    "2 * dotSize sampleImage \<le> MaxY sampleImage"
    by (simp_all add: sampleImage_def)
  ultimately obtain img1 s1 where
    f: "fillWithCircles sampleImage 10 (dotSize sampleImage) zeros = Inr (img1, s1)"
    using fillWithCircles_returns [of sampleImage "dotSize sampleImage" 10 zeros] by blast
  note fr = fillWithCircles_frame_effect [OF f]
  have "4 \<le> dotSize img1" "0 \<le> MaxY img1" using fr by (simp_all add: sampleImage_def)
  from strikeThrough_loop_returns [OF this, of "MaxX img1" 0] obtain img2 s2 where
    st: "strikeThrough img1 s1 = Inr (img2, s2)"
    using rnd_ok [of "quo (MaxY img1) 3" "MaxY img1 - quo (MaxY img1) 3" s1] \<open>0 \<le> MaxY img1\<close>
    by (fastforce simp: strikeThrough_def Let_def quo_nonneg)
  from fr st have "paints (primaryColor sampleImage) img1 img2" by blast
  with f st fr show ?thesis by blast
qed

subsection \<open>Rounding to float64\<close>


lemma rne_bounds: "\<lfloor>q\<rfloor> \<le> rne q \<and> rne q \<le> \<lfloor>q\<rfloor> + 1"
  by (simp add: rne_def Let_def)

lemma rne_of_int [simp]: "rne (of_int k) = k"
  by (simp add: rne_def Let_def)

lemma rne_mono: "q \<le> q' \<Longrightarrow> rne q \<le> rne q'"
proof -
  assume le: "q \<le> q'"
  then have fl: "\<lfloor>q\<rfloor> \<le> \<lfloor>q'\<rfloor>" by (rule floor_mono)
  show ?thesis
  proof (cases "\<lfloor>q\<rfloor> = \<lfloor>q'\<rfloor>")
    case True
    with le have "q - of_int \<lfloor>q\<rfloor> \<le> q' - of_int \<lfloor>q'\<rfloor>" by simp
    with True show ?thesis by (auto simp: rne_def Let_def)
  next
    case False
    with fl have "\<lfloor>q\<rfloor> + 1 \<le> \<lfloor>q'\<rfloor>" by simp
    with rne_bounds [of q] rne_bounds [of q'] show ?thesis by linarith
  qed
qed

lemma rne_ge: "of_int k \<le> q \<Longrightarrow> k \<le> rne q"
  using rne_mono [of "of_int k" q] by simp

lemma rne_le: "q \<le> of_int k \<Longrightarrow> rne q \<le> k"
  using rne_mono [of q "of_int k"] by simp

lemma ilog2_bounds:
  assumes "0 < x"
  shows "2 powi (ilog2 x) \<le> x \<and> x < 2 powi (ilog2 x + 1)"
proof (cases "1 \<le> x")
  case True
  let ?n = "\<lfloor>x\<rfloor>"
  have n: "0 < ?n" using True by simp
  from bitlen_bounds [OF n] have b: "2 ^ nat (bitlen ?n - 1) \<le> ?n" "?n < 2 ^ nat (bitlen ?n)"
    by simp_all
  have b1: "1 \<le> bitlen ?n" using n by (simp add: bitlen_alt_def split: if_splits)
  have e: "ilog2 x = bitlen ?n - 1" using True by (simp add: ilog2_def)
  have "(2::rat) powi (bitlen ?n - 1) = 2 ^ nat (bitlen ?n - 1)"
    using b1 by (simp add: power_int_nonneg_exp)
  also have "\<dots> = of_int (2 ^ nat (bitlen ?n - 1))" by simp
  also have "\<dots> \<le> of_int ?n" using b(1) by (simp only: of_int_le_iff)
  also have "\<dots> \<le> x" by simp
  finally have lo: "2 powi (ilog2 x) \<le> x" by (simp add: e)
  have "?n + 1 \<le> 2 ^ nat (bitlen ?n)" using b(2) by simp
  then have "(of_int (?n + 1) :: rat) \<le> of_int (2 ^ nat (bitlen ?n))"
    by (simp only: of_int_le_iff)
  moreover have "x < of_int (?n + 1)" using floor_correct [of x] by simp
  ultimately have "x < of_int (2 ^ nat (bitlen ?n))" by linarith
  also have "\<dots> = 2 powi (bitlen ?n)" using b1 by (simp add: power_int_nonneg_exp)
  finally have "x < 2 powi (ilog2 x + 1)" by (simp add: e)
  with lo show ?thesis by simp
next
  case False
  let ?y = "1 / x"
  let ?m = "\<lceil>?y\<rceil> - 1"
  have y1: "1 < ?y" using False assms by simp
  then have "1 < \<lceil>?y\<rceil>" by (simp add: less_ceiling_iff)
  then have m: "0 < ?m" by simp
  from bitlen_bounds [OF m] have b: "2 ^ nat (bitlen ?m - 1) \<le> ?m" "?m < 2 ^ nat (bitlen ?m)"
    by simp_all
  have b1: "1 \<le> bitlen ?m" using m by (simp add: bitlen_alt_def split: if_splits)
  have e: "ilog2 x = - bitlen ?m" using False by (simp add: ilog2_def)
  have p: "(2::rat) powi (bitlen ?m) = of_int (2 ^ nat (bitlen ?m))"
    "(2::rat) powi (bitlen ?m - 1) = of_int (2 ^ nat (bitlen ?m - 1))"
    using b1 by (simp_all add: power_int_nonneg_exp)
  have "?m + 1 \<le> 2 ^ nat (bitlen ?m)" using b(2) by simp
  then have "(of_int (?m + 1) :: rat) \<le> of_int (2 ^ nat (bitlen ?m))"
    by (simp only: of_int_le_iff)
  moreover have "?y \<le> of_int (?m + 1)" using ceiling_correct [of ?y] by simp
  ultimately have "?y \<le> 2 powi (bitlen ?m)" unfolding p by linarith
  then have "1 \<le> x * 2 powi (bitlen ?m)" using assms by (simp add: field_simps)
  then have lo: "2 powi (ilog2 x) \<le> x"
    unfolding e power_int_minus by (simp add: field_simps)
  have "(of_int (2 ^ nat (bitlen ?m - 1)) :: rat) \<le> of_int ?m"
    using b(1) by (simp only: of_int_le_iff)
  moreover have "of_int ?m < ?y" using ceiling_correct [of ?y] by simp
  ultimately have "2 powi (bitlen ?m - 1) < ?y" unfolding p by linarith
  then have "x * 2 powi (bitlen ?m - 1) < 1" using assms by (simp add: field_simps)
  moreover have pp: "0 < (2::rat) powi (bitlen ?m - 1)" by simp
  ultimately have "x < 1 / 2 powi (bitlen ?m - 1)" by (simp only: pos_less_divide_eq)
  moreover have "(2::rat) powi (ilog2 x + 1) = 1 / 2 powi (bitlen ?m - 1)"
    unfolding e using power_int_minus_divide [of "2::rat" "bitlen ?m - 1"] by simp
  ultimately have "x < 2 powi (ilog2 x + 1)" by simp
  with lo show ?thesis by simp
qed

lemma ilog2_unique:
  assumes "2 powi e \<le> x" "x < 2 powi (e + 1)"
  shows "ilog2 x = e"
proof -
  have "0 < (2::rat) powi e" by simp
  from this assms(1) have x: "0 < x" by (rule less_le_trans)
  note b = ilog2_bounds [OF x]
  have "\<not> ilog2 x < e"
  proof
    assume "ilog2 x < e"
    then have "ilog2 x + 1 \<le> e" by simp
    then have "(2::rat) powi (ilog2 x + 1) \<le> 2 powi e" by (rule power_int_increasing) simp
    with b assms(1) show False by simp
  qed
  moreover have "\<not> e < ilog2 x"
  proof
    assume "e < ilog2 x"
    then have "e + 1 \<le> ilog2 x" by simp
    then have "(2::rat) powi (e + 1) \<le> 2 powi (ilog2 x)" by (rule power_int_increasing) simp
    with b assms(2) show False by simp
  qed
  ultimately show ?thesis by simp
qed

lemma ilog2_mono:
  assumes "0 < x" "x \<le> y"
  shows "ilog2 x \<le> ilog2 y"
proof (rule ccontr)
  assume "\<not> ilog2 x \<le> ilog2 y"
  then have "ilog2 y + 1 \<le> ilog2 x" by simp
  then have "(2::rat) powi (ilog2 y + 1) \<le> 2 powi (ilog2 x)" by (rule power_int_increasing) simp
  moreover have "0 < y" using assms by simp
  ultimately show False using ilog2_bounds [OF assms(1)] ilog2_bounds [OF \<open>0 < y\<close>] assms(2)
    by simp
qed


lemma f64_0 [simp]: "f64 0 = 0"
  by (simp add: f64_def)

lemma f64_pos:
  "0 < x \<Longrightarrow> f64 x = of_int (rne (x / 2 powi (ilog2 x - 52))) * 2 powi (ilog2 x - 52)"
  by (simp add: f64_def Let_def)

lemma ulp_scale:
  "(2::rat) powi e = 2 ^ 52 * 2 powi (e - 52)" "(2::rat) powi (e + 1) = 2 ^ 53 * 2 powi (e - 52)"
proof -
  have "(2::rat) powi (52 + (e - 52)) = 2 powi 52 * 2 powi (e - 52)" by (rule power_int_add) simp
  moreover have "52 + (e - 52) = e" by simp
  ultimately show "(2::rat) powi e = 2 ^ 52 * 2 powi (e - 52)" by simp
  have "(2::rat) powi (53 + (e - 52)) = 2 powi 53 * 2 powi (e - 52)" by (rule power_int_add) simp
  moreover have "53 + (e - 52) = e + 1" by simp
  ultimately show "(2::rat) powi (e + 1) = 2 ^ 53 * 2 powi (e - 52)" by simp
qed

lemma significand_bounds:
  assumes "2 powi e \<le> x" "x < 2 powi (e + 1)"
  shows "2 ^ 52 \<le> rne (x / 2 powi (e - 52)) \<and> rne (x / 2 powi (e - 52)) \<le> 2 ^ 53"
proof -
  let ?u = "(2::rat) powi (e - 52)"
  have u: "0 < ?u" by simp
  have "2 ^ 52 * ?u \<le> x" using assms(1) ulp_scale(1) [of e] by linarith
  then have "2 ^ 52 \<le> x / ?u" using u by (simp only: pos_le_divide_eq)
  then have "of_int (2 ^ 52) \<le> x / ?u" by simp
  then have lo: "2 ^ 52 \<le> rne (x / ?u)" by (rule rne_ge)
  have "x < 2 ^ 53 * ?u" using assms(2) ulp_scale(2) [of e] by linarith
  then have "x / ?u < 2 ^ 53" using u by (simp only: pos_divide_less_eq)
  then have "x / ?u \<le> of_int (2 ^ 53)" by simp
  then have "rne (x / ?u) \<le> 2 ^ 53" by (rule rne_le)
  with lo show ?thesis by simp
qed

lemma f64_bounds:
  assumes "0 < x"
  shows "2 powi (ilog2 x) \<le> f64 x \<and> f64 x \<le> 2 powi (ilog2 x + 1)"
proof -
  let ?e = "ilog2 x"
  let ?u = "(2::rat) powi (?e - 52)"
  let ?m = "rne (x / ?u)"
  from ilog2_bounds [OF assms] have "2 ^ 52 \<le> ?m \<and> ?m \<le> 2 ^ 53"
    by (intro significand_bounds) simp_all
  then have "(of_int (2 ^ 52) :: rat) \<le> of_int ?m" "(of_int ?m :: rat) \<le> of_int (2 ^ 53)"
    by (simp_all only: of_int_le_iff)
  then have "2 ^ 52 * ?u \<le> of_int ?m * ?u" "of_int ?m * ?u \<le> 2 ^ 53 * ?u"
    by (simp_all add: mult_right_mono)
  with f64_pos [OF assms] ulp_scale [of ?e] show ?thesis by linarith
qed

lemma f64_pos_pos: "0 < x \<Longrightarrow> 0 < f64 x"
proof -
  assume x: "0 < x"
  have "0 < (2::rat) powi (ilog2 x)" by simp
  with f64_bounds [OF x] show ?thesis by linarith
qed

lemma f64_nonneg: "0 \<le> x \<Longrightarrow> 0 \<le> f64 x"
  using f64_pos_pos [of x] by (cases "x = 0") simp_all

lemma f64_mono:
  assumes "0 \<le> x" "x \<le> y"
  shows "f64 x \<le> f64 y"
proof (cases "x = 0")
  case True
  with assms f64_nonneg [of y] show ?thesis by simp
next
  case False
  with assms have x: "0 < x" and y: "0 < y" by simp_all
  from ilog2_mono [OF x assms(2)] have le: "ilog2 x \<le> ilog2 y" .
  show ?thesis
  proof (cases "ilog2 x = ilog2 y")
    case True
    let ?u = "(2::rat) powi (ilog2 y - 52)"
    have u: "0 < ?u" by simp
    have "x / ?u \<le> y / ?u" using assms(2) u by (simp add: divide_right_mono)
    then have "rne (x / ?u) \<le> rne (y / ?u)" by (rule rne_mono)
    then have "(of_int (rne (x / ?u)) :: rat) \<le> of_int (rne (y / ?u))"
      by (simp only: of_int_le_iff)
    then have "of_int (rne (x / ?u)) * ?u \<le> of_int (rne (y / ?u)) * ?u"
      using u by (simp add: mult_right_mono)
    then show ?thesis by (simp only: f64_pos [OF x] f64_pos [OF y] True)
  next
    case False
    with le have "ilog2 x + 1 \<le> ilog2 y" by simp
    then have "(2::rat) powi (ilog2 x + 1) \<le> 2 powi (ilog2 y)"
      by (rule power_int_increasing) simp
    with f64_bounds [OF x] f64_bounds [OF y] show ?thesis by linarith
  qed
qed

lemma f64_idem:
  assumes "0 \<le> x"
  shows "f64 (f64 x) = f64 x"
proof (cases "x = 0")
  case True
  then show ?thesis by simp
next
  case False
  with assms have x: "0 < x" by simp
  let ?e = "ilog2 x"
  let ?u = "(2::rat) powi (?e - 52)"
  let ?m = "rne (x / ?u)"
  have v: "f64 x = of_int ?m * ?u" by (rule f64_pos [OF x])
  have vpos: "0 < f64 x" by (rule f64_pos_pos [OF x])
  have u: "0 < ?u" by simp
  from ilog2_bounds [OF x] have mb: "2 ^ 52 \<le> ?m" "?m \<le> 2 ^ 53"
    using significand_bounds [of ?e x] by simp_all
  show ?thesis
  proof (cases "?m = 2 ^ 53")
    case True
    then have "f64 x = 2 ^ 53 * ?u" by (simp only: v) simp
    with ulp_scale(2) [of ?e] have val: "f64 x = 2 powi (?e + 1)" by simp
    have "(2::rat) powi (?e + 1) < 2 powi (?e + 1 + 1)"
      by (rule power_int_strict_increasing) simp_all
    then have e': "ilog2 (f64 x) = ?e + 1" by (intro ilog2_unique) (simp_all only: val order_refl)
    let ?u' = "(2::rat) powi (?e + 1 - 52)"
    have u': "0 < ?u'" by simp
    have sc: "(2::rat) powi (?e + 1) = 2 ^ 52 * ?u'" by (rule ulp_scale(1))
    then have "f64 x / ?u' = 2 ^ 52" using u' by (simp only: val) simp
    then have "f64 x / ?u' = of_int (2 ^ 52)" by simp
    then have r: "rne (f64 x / ?u') = 2 ^ 52" by (simp only: rne_of_int)
    have "f64 (f64 x) = of_int (rne (f64 x / 2 powi (ilog2 (f64 x) - 52))) * 2 powi (ilog2 (f64 x) - 52)"
      by (rule f64_pos [OF vpos])
    also have "\<dots> = of_int (rne (f64 x / ?u')) * ?u'" by (simp only: e')
    also have "\<dots> = of_int (2 ^ 52) * ?u'" by (simp only: r)
    also have "\<dots> = 2 powi (?e + 1)" using sc by simp
    also have "\<dots> = f64 x" by (simp only: val)
    finally show ?thesis .
  next
    case False
    with mb have "?m + 1 \<le> 2 ^ 53" by simp
    then have "(of_int (?m + 1) :: rat) \<le> of_int (2 ^ 53)" by (simp only: of_int_le_iff)
    then have "(of_int ?m :: rat) < 2 ^ 53" by simp
    then have "of_int ?m * ?u < 2 ^ 53 * ?u" using u by (simp add: mult_strict_right_mono)
    with v ulp_scale(2) [of ?e] have hi: "f64 x < 2 powi (?e + 1)" by linarith
    have lo: "2 powi ?e \<le> f64 x" using f64_bounds [OF x] by simp
    from lo hi have e': "ilog2 (f64 x) = ?e" by (rule ilog2_unique)
    have "f64 x / ?u = of_int ?m" using u by (simp add: v)
    then have r: "rne (f64 x / ?u) = ?m" by (simp only: rne_of_int)
    have "f64 (f64 x) = of_int (rne (f64 x / 2 powi (ilog2 (f64 x) - 52))) * 2 powi (ilog2 (f64 x) - 52)"
      by (rule f64_pos [OF vpos])
    also have "\<dots> = of_int (rne (f64 x / ?u)) * ?u" by (simp only: e')
    also have "\<dots> = of_int ?m * ?u" by (simp only: r)
    also have "\<dots> = f64 x" by (simp only: v)
    finally show ?thesis .
  qed
qed

lemma f64_1 [simp]: "f64 1 = 1"
  by code_simp

subsection \<open>Layout\<close>


lemma float64_ge_1: "1 \<le> n \<Longrightarrow> 1 \<le> float64 n"
proof -
  assume "1 \<le> n"
  then have "(1::rat) \<le> of_int n" by simp
  then have "f64 1 \<le> f64 (of_int n)" by (intro f64_mono) simp_all
  then show ?thesis by (simp add: float64_def)
qed

lemma float64_nonneg: "0 \<le> n \<Longrightarrow> 0 \<le> float64 n"
  by (simp add: float64_def f64_nonneg)

lemma float64_idem: "0 \<le> n \<Longrightarrow> f64 (float64 n) = float64 n"
  by (simp add: float64_def f64_idem)

lemma trunc_nonneg: "0 \<le> x \<Longrightarrow> trunc x = \<lfloor>x\<rfloor>"
  by (simp add: trunc_def)

lemma usable_pos: "0 < (a::int) \<Longrightarrow> 0 < b \<Longrightarrow> 1 \<le> a - 2 * (min a b div 5)"
  by (simp add: min_def) linarith

text \<open>
  The signs in \<^verbatim>\<open>calculateSizes\<close>: for a positive width, height and number of digits
  and a font of positive dimensions, the two candidate sizes and the quotient that
  gives the dot size are not negative, and the quotient is at most the height \<open>nh\<close>.
\<close>

lemma layout_signs:
  assumes "1 \<le> uw" "1 \<le> uh" "1 \<le> digitCount" "1 \<le> fontWidth F" "1 \<le> fontHeight F"
  defines "fw \<equiv> f64 (float64 (fontWidth F) + 1)"
  defines "fh \<equiv> float64 (fontHeight F)"
  defines "nw \<equiv> f64 (float64 uw / float64 digitCount)"
  defines "nh \<equiv> f64 (f64 (nw * fh) / fw)"
  defines "nh' \<equiv> (if nh > float64 uh then float64 uh else nh)"
  defines "nw' \<equiv> (if nh > float64 uh then f64 (f64 (fw / fh) * float64 uh) else nw)"
  shows "0 \<le> nw'" and "0 \<le> nh'" and "0 \<le> f64 (nh' / fh)" and "f64 (nh' / fh) \<le> nh'"
proof -
  have fh1: "1 \<le> fh" unfolding fh_def using assms(5) by (rule float64_ge_1)
  have "0 \<le> float64 (fontWidth F)" using assms(4) by (simp add: float64_nonneg)
  then have fw0: "0 \<le> fw" unfolding fw_def by (intro f64_nonneg) simp
  have w0: "0 \<le> float64 uw" and h0: "0 \<le> float64 uh" and nc0: "0 \<le> float64 digitCount"
    using assms(1-3) by (simp_all add: float64_nonneg)
  have nw0: "0 \<le> nw" unfolding nw_def using w0 nc0 by (intro f64_nonneg) simp
  have "0 \<le> f64 (nw * fh)" using nw0 fh1 by (intro f64_nonneg) simp
  then have nh0: "0 \<le> nh" unfolding nh_def using fw0 by (intro f64_nonneg) simp
  have "0 \<le> f64 (fw / fh)" using fw0 fh1 by (intro f64_nonneg) simp
  then have "0 \<le> f64 (f64 (fw / fh) * float64 uh)" using h0 by (intro f64_nonneg) simp
  then show "0 \<le> nw'" using nw0 by (simp add: nw'_def)
  show nh'0: "0 \<le> nh'" using nh0 h0 by (simp add: nh'_def)
  then show "0 \<le> f64 (nh' / fh)" using fh1 by (intro f64_nonneg) simp
  have rep: "f64 nh' = nh'"
  proof (cases "nh > float64 uh")
    case True
    then show ?thesis using assms(2) by (simp add: nh'_def float64_idem)
  next
    case False
    have "0 \<le> f64 (nw * fh) / fw" using \<open>0 \<le> f64 (nw * fh)\<close> fw0 by simp
    then have "f64 nh = nh" unfolding nh_def by (rule f64_idem)
    with False show ?thesis by (simp add: nh'_def)
  qed
  have "nh' * 1 \<le> nh' * fh" using fh1 nh'0 by (rule mult_left_mono)
  then have "nh' / fh \<le> nh'" using fh1 by (simp add: divide_le_eq)
  moreover have "0 \<le> nh' / fh" using nh'0 fh1 by simp
  ultimately have "f64 (nh' / fh) \<le> f64 nh'" by (intro f64_mono)
  then show "f64 (nh' / fh) \<le> nh'" by (simp only: rep)
qed

lemma border_min:
  "0 < width \<Longrightarrow> 0 < height \<Longrightarrow>
     (if width > height then quo height 5 else quo width 5) = min width height div 5"
  by (simp add: quo_nonneg min_def)

lemma calculateSizes_unfold:
  fixes F :: Font and width height ncount :: int
  assumes "0 < width" "0 < height"
  defines "b \<equiv> min width height div 5"
  defines "fw \<equiv> f64 (float64 (fontWidth F) + 1)"
  defines "fh \<equiv> float64 (fontHeight F)"
  defines "nw \<equiv> f64 (float64 (width - b * 2) / float64 ncount)"
  defines "nh \<equiv> f64 (f64 (nw * fh) / fw)"
  defines "nh' \<equiv> (if nh > float64 (height - b * 2) then float64 (height - b * 2) else nh)"
  defines "nw' \<equiv> (if nh > float64 (height - b * 2)
                   then f64 (f64 (fw / fh) * float64 (height - b * 2)) else nw)"
  shows "calculateSizes F img width height ncount =
           img\<lparr>dotSize := trunc (f64 (nh' / fh)), numWidth := trunc nw',
               numHeight := trunc nh' - trunc (f64 (nh' / fh))\<rparr>"
  by (simp only: calculateSizes_def Let_def border_min [OF assms(1,2)]
        b_def fw_def fh_def nw_def nh_def nh'_def nw'_def)

lemma computeLayout_unfold:
  fixes F :: Font and width height ncount :: int
  defines "b \<equiv> min width height div 5"
  defines "fw \<equiv> f64 (float64 (fontWidth F) + 1)"
  defines "fh \<equiv> float64 (fontHeight F)"
  defines "nw \<equiv> f64 (float64 (width - b * 2) / float64 ncount)"
  defines "nh \<equiv> f64 (f64 (nw * fh) / fw)"
  defines "nh' \<equiv> (if nh > float64 (height - b * 2) then float64 (height - b * 2) else nh)"
  defines "nw' \<equiv> (if nh > float64 (height - b * 2)
                   then f64 (f64 (fw / fh) * float64 (height - b * 2)) else nw)"
  shows "computeLayout F width height ncount =
           (\<lfloor>nw'\<rfloor>, \<lfloor>nh'\<rfloor> - \<lfloor>f64 (nh' / fh)\<rfloor>, \<lfloor>f64 (nh' / fh)\<rfloor>)"
proof -
  have c: "2 * (min width height div 5) = min width height div 5 * 2" by simp
  show ?thesis
  proof (cases "nh > float64 (height - b * 2)")
    case True
    note T = True [unfolded nh_def nw_def fh_def fw_def b_def]
    show ?thesis
      by (simp only: computeLayout_def Let_def c b_def fw_def fh_def nw_def nh_def nh'_def nw'_def
            T if_True)
  next
    case False
    note N = False [unfolded nh_def nw_def fh_def fw_def b_def]
    show ?thesis
      by (simp only: computeLayout_def Let_def c b_def fw_def fh_def nw_def nh_def nh'_def nw'_def
            N if_False)
  qed
qed

lemma trunc_diff_nonneg: "0 \<le> q \<Longrightarrow> q \<le> x \<Longrightarrow> 0 \<le> trunc x - trunc q"
proof -
  assume q: "0 \<le> q" and le: "q \<le> x"
  then have "\<lfloor>q\<rfloor> \<le> \<lfloor>x\<rfloor>" by (intro floor_mono)
  with q le show ?thesis by (simp add: trunc_nonneg)
qed

lemma calculateSizes_shape:
  assumes "0 < width" "0 < height" "1 \<le> ncount" "1 \<le> fontWidth F" "1 \<le> fontHeight F"
  shows "\<exists>nw' nh' q.
           calculateSizes F img width height ncount =
             img\<lparr>dotSize := trunc q, numWidth := trunc nw', numHeight := trunc nh' - trunc q\<rparr> \<and>
           computeLayout F width height ncount = (\<lfloor>nw'\<rfloor>, \<lfloor>nh'\<rfloor> - \<lfloor>q\<rfloor>, \<lfloor>q\<rfloor>) \<and>
           0 \<le> nw' \<and> 0 \<le> nh' \<and> 0 \<le> q \<and> q \<le> nh'"
proof -
  let ?b = "min width height div 5"
  have uw: "1 \<le> width - ?b * 2" using usable_pos [OF assms(1,2)] by simp
  have uh: "1 \<le> height - ?b * 2" using usable_pos [OF assms(2,1)] by (simp add: min.commute)
  note u = calculateSizes_unfold [OF assms(1,2)]
    and c = computeLayout_unfold
    and s = layout_signs [OF uw uh assms(3,4,5)]
  show ?thesis
    apply (intro exI conjI)
         apply (rule u)
        apply (rule c)
       apply (rule s(1))
      apply (rule s(2))
     apply (rule s(3))
    apply (rule s(4))
    done
qed

lemma calculateSizes_nonneg_fields:
  assumes "0 < width" "0 < height" "1 \<le> ncount" "1 \<le> fontWidth F" "1 \<le> fontHeight F"
  shows "0 \<le> numWidth (calculateSizes F img width height ncount) \<and>
         0 \<le> numHeight (calculateSizes F img width height ncount) \<and>
         0 \<le> dotSize (calculateSizes F img width height ncount)"
proof -
  from calculateSizes_shape [OF assms, of img] obtain nw' nh' q where
    cs: "calculateSizes F img width height ncount =
           img\<lparr>dotSize := trunc q, numWidth := trunc nw', numHeight := trunc nh' - trunc q\<rparr>"
    and s: "0 \<le> nw'" "0 \<le> nh'" "0 \<le> q" "q \<le> nh'" by blast
  from s trunc_diff_nonneg [OF s(3,4)] show ?thesis by (simp add: cs trunc_nonneg)
qed

text \<open>
  C1. For a positive width and height, at least one digit and a font of positive
  dimensions, \<^verbatim>\<open>calculateSizes\<close> sets \<open>numWidth\<close>, \<open>numHeight\<close> and \<open>dotSize\<close> to what the
  algorithm of the specification (\<open>computeLayout\<close>, with its \<open>min\<close> and its \<open>floor\<close>)
  gives, and changes nothing else. Both compute in \<^verbatim>\<open>float64\<close>.
\<close>

theorem calculateSizes_follows_algorithm:
  assumes "0 < width" "0 < height" "1 \<le> digitCount" "1 \<le> fontWidth F" "1 \<le> fontHeight F"
  shows "calculateSizes F img width height digitCount =
           (case computeLayout F width height digitCount of
              (nw, nh, d) \<Rightarrow> img\<lparr>dotSize := d, numWidth := nw, numHeight := nh\<rparr>)"
proof -
  from calculateSizes_shape [OF assms, of img] obtain nw' nh' q where
    cs: "calculateSizes F img width height digitCount =
           img\<lparr>dotSize := trunc q, numWidth := trunc nw', numHeight := trunc nh' - trunc q\<rparr>"
    and cl: "computeLayout F width height digitCount = (\<lfloor>nw'\<rfloor>, \<lfloor>nh'\<rfloor> - \<lfloor>q\<rfloor>, \<lfloor>q\<rfloor>)"
    and s: "0 \<le> nw'" "0 \<le> nh'" "0 \<le> q" by blast
  from s show ?thesis by (simp add: cs cl trunc_nonneg)
qed

theorem calculateSizes_follows_algorithm_witness:
  "(0::int) < 300 \<and> (0::int) < 80 \<and> (1::int) \<le> 5 \<and> 1 \<le> fontWidth sampleFont \<and>
   1 \<le> fontHeight sampleFont \<and>
   calculateSizes sampleFont blank3 300 80 5 =
     (case computeLayout sampleFont 300 80 5 of
        (nw, nh, d) \<Rightarrow> blank3\<lparr>dotSize := d, numWidth := nw, numHeight := nh\<rparr>) \<and>
   computeLayout sampleFont 300 80 5 = (36, 42, 6)"
proof -
  have f: "1 \<le> fontWidth sampleFont" "1 \<le> fontHeight sampleFont"
    by (simp_all add: sampleFont_def)
  have c: "computeLayout sampleFont 300 80 5 = (36, 42, 6)" by code_simp
  from f c calculateSizes_follows_algorithm [of 300 80 5 sampleFont blank3] show ?thesis
    by simp
qed

text \<open>
  C3, as amended. For a positive width and height, at least one digit and a font of
  positive dimensions, \<open>numWidth\<close>, \<open>numHeight\<close> and \<open>dotSize\<close> are not negative. Each of
  them can be 0.
\<close>

theorem calculateSizes_nonneg:
  assumes "0 < width" "0 < height" "1 \<le> ncount" "1 \<le> fontWidth F" "1 \<le> fontHeight F"
  shows "0 \<le> numWidth (calculateSizes F img width height ncount) \<and>
         0 \<le> numHeight (calculateSizes F img width height ncount) \<and>
         0 \<le> dotSize (calculateSizes F img width height ncount)"
  using assms by (rule calculateSizes_nonneg_fields)

theorem calculateSizes_nonneg_witness:
  "(0::int) < 20 \<and> (1::int) \<le> 20 \<and> 1 \<le> fontWidth sampleFont \<and> 1 \<le> fontHeight sampleFont \<and>
   0 \<le> numWidth (calculateSizes sampleFont blank3 20 20 20) \<and>
   0 \<le> numHeight (calculateSizes sampleFont blank3 20 20 20) \<and>
   0 \<le> dotSize (calculateSizes sampleFont blank3 20 20 20)"
proof -
  have f: "1 \<le> fontWidth sampleFont" "1 \<le> fontHeight sampleFont"
    by (simp_all add: sampleFont_def)
  from f calculateSizes_nonneg [of 20 20 20 sampleFont blank3] show ?thesis by simp
qed

text \<open>
  C3 as stated fails: a 20 by 20 image with 20 digits (as many digits as the width) has
  the usable width 12, so \<open>nw = 0.6\<close> and \<open>nh = 0.8\<close>, and \<open>numWidth\<close>, \<open>numHeight\<close> and
  \<open>dotSize\<close> are all 0.
\<close>

theorem calculateSizes_zero_counterexample:
  "(0::int) < 20 \<and> (1::int) \<le> 20 \<and>
   numWidth (calculateSizes sampleFont blank3 20 20 20) = 0 \<and>
   numHeight (calculateSizes sampleFont blank3 20 20 20) = 0 \<and>
   dotSize (calculateSizes sampleFont blank3 20 20 20) = 0"
  by code_simp

subsection \<open>The whole image\<close>


lemma glyph_index:
  assumes "0 \<le> yy" "yy < fh" "0 \<le> xx" "xx < fw" "fw * fh \<le> len"
  shows "0 \<le> yy * fw + xx \<and> yy * fw + xx < (len::int)"
proof -
  have "0 \<le> yy * fw" using assms by simp
  moreover have "yy * fw \<le> (fh - 1) * fw" using assms by (intro mult_right_mono) simp_all
  moreover have "(fh - 1) * fw + fw = fw * fh" by (simp add: algebra_simps)
  ultimately show ?thesis using assms by linarith
qed

lemma drawNumber_cols_returns:
  "0 \<le> minr \<Longrightarrow> minr \<le> maxr \<Longrightarrow> 0 \<le> yy \<Longrightarrow> yy < fontHeight F \<Longrightarrow> 0 \<le> xx \<Longrightarrow>
   fontWidth F * fontHeight F \<le> int (length number) \<Longrightarrow>
     \<exists>img' s'. drawNumber_cols F img number x y minr maxr yy xx s = Inr (img', s')"
proof (induction "nat (fontWidth F - xx)" arbitrary: img xx s)
  case 0
  then have "\<not> xx < fontWidth F" by simp
  then show ?case by (subst drawNumber_cols.simps) simp
next
  case (Suc k)
  then have lt: "xx < fontWidth F" and k: "k = nat (fontWidth F - (xx + 1))" by simp_all
  have xx1: "0 \<le> xx + 1" using Suc(7) by simp
  note ih = Suc(1) [OF k Suc(3) Suc(4) Suc(5) Suc(6) xx1 Suc(8)]
  from glyph_index [OF Suc(5) Suc(6) Suc(7) lt Suc(8)]
  have idx: "\<not> (yy * fontWidth F + xx < 0 \<or> int (length number) \<le> yy * fontWidth F + xx)"
    by simp
  show ?case
  proof (cases "number ! nat (yy * fontWidth F + xx) \<noteq> blackChar F")
    case True
    from ih [of img s] obtain img' s' where
      "drawNumber_cols F img number x y minr maxr yy (xx + 1) s = Inr (img', s')" by blast
    with lt idx True have "drawNumber_cols F img number x y minr maxr yy xx s = Inr (img', s')"
      by (subst drawNumber_cols.simps) simp
    then show ?thesis by blast
  next
    case False
    from rnd_ok [OF Suc(4)] obtain r s1 where r: "rnd minr maxr s = Inr (r, s1)" by blast
    from rnd_range [OF r] Suc(3) have "0 \<le> r" by simp
    then have "0 \<le> quo r 2" by (simp add: quo_nonneg)
    from rnd_ok [OF this] obtain dx s2 dy s3 where
      dx: "rnd 0 (quo r 2) s1 = Inr (dx, s2)" and dy: "rnd 0 (quo r 2) s2 = Inr (dy, s3)"
      by blast
    from ih obtain img' s' where
      "drawNumber_cols F
         (drawCircle img (primaryColor img) (x + (xx * dotSize img) + dx)
            (y + (yy * dotSize img) + dy) r)
         number x y minr maxr yy (xx + 1) s3 = Inr (img', s')" by blast
    with lt idx False r dx dy
    have "drawNumber_cols F img number x y minr maxr yy xx s = Inr (img', s')"
      by (subst drawNumber_cols.simps) simp
    then show ?thesis by blast
  qed
qed

lemma drawNumber_rows_returns:
  "0 \<le> minr \<Longrightarrow> minr \<le> maxr \<Longrightarrow> 0 \<le> yy \<Longrightarrow>
   fontWidth F * fontHeight F \<le> int (length number) \<Longrightarrow>
     \<exists>img' s'. drawNumber_rows F img number x y minr maxr skf xs yy s = Inr (img', s')"
proof (induction "nat (fontHeight F - yy)" arbitrary: img x xs yy s)
  case 0
  then have "\<not> yy < fontHeight F" by simp
  then show ?case by (subst drawNumber_rows.simps) simp
next
  case (Suc k)
  then have lt: "yy < fontHeight F" and k: "k = nat (fontHeight F - (yy + 1))" by simp_all
  have yy1: "0 \<le> yy + 1" using Suc(5) by simp
  from drawNumber_cols_returns [OF Suc(3) Suc(4) Suc(5) lt _ Suc(6), of 0 img x y s]
  obtain img1 s1 where
    c: "drawNumber_cols F img number x y minr maxr yy 0 s = Inr (img1, s1)" by auto
  from Suc(1) [OF k Suc(3) Suc(4) yy1 Suc(6)] obtain img' s' where
    "drawNumber_rows F img1 number (trunc (f64 (xs + skf))) y minr maxr skf (f64 (xs + skf))
       (yy + 1) s1 = Inr (img', s')" by blast
  with lt c have "drawNumber_rows F img number x y minr maxr skf xs yy s = Inr (img', s')"
    by (subst drawNumber_rows.simps) simp
  then show ?case by blast
qed

lemma drawNumber_returns:
  assumes "0 \<le> dotSize img" "fontWidth F * fontHeight F \<le> int (length number)"
  shows "\<exists>img' s'. drawNumber F img number x y s = Inr (img', s')"
proof -
  let ?minr = "quo (dotSize img) 2"
  let ?maxr = "quo (dotSize img) 2 + quo (dotSize img) 4"
  have m: "0 \<le> ?minr" "?minr \<le> ?maxr" using assms(1) by (simp_all add: quo_nonneg)
  obtain u s1 where f: "Float64 s = (u, s1)" by (cases "Float64 s")
  have "- maxSkew \<le> maxSkew" by (simp add: maxSkew_def)
  from rnd_ok [OF this] obtain k s2 where k: "rnd (- maxSkew) maxSkew s1 = Inr (k, s2)" by blast
  have "- ?minr \<le> ?minr" using m(1) by simp
  from rnd_ok [OF this] obtain dy s3 where dy: "rnd (- ?minr) ?minr s2 = Inr (dy, s3)" by blast
  have z: "(0::int) \<le> 0" by simp
  from drawNumber_rows_returns [OF m z assms(2)] obtain img' s' where
    "drawNumber_rows F img number x (y + dy) ?minr ?maxr (f64 (u * float64 k)) (float64 x) 0 s3
       = Inr (img', s')" by blast
  with f k dy have "drawNumber F img number x y s = Inr (img', s')"
    by (simp add: drawNumber_def Let_def)
  then show ?thesis by blast
qed


text \<open>
  A well-formed font: positive dimensions, ten glyphs, each of \<open>fontWidth * fontHeight\<close>
  cells.
\<close>

definition fontOK :: "Font \<Rightarrow> bool" where
  "fontOK F \<longleftrightarrow>
     1 \<le> fontWidth F \<and> 1 \<le> fontHeight F \<and> length (font F) = 10 \<and>
     (\<forall>g \<in> set (font F). int (length g) = fontWidth F * fontHeight F)"

lemma NewImage_numbers_returns:
  "fontOK F \<Longrightarrow> 0 \<le> dotSize img \<Longrightarrow> \<forall>n \<in> set numbers. n \<le> 9 \<Longrightarrow>
     \<exists>img' s'. NewImage_numbers F img numbers x y s = Inr (img', s')"
proof (induction numbers arbitrary: img x s)
  case Nil
  then show ?case by simp
next
  case (Cons n numbers)
  from Cons(4) have "n \<le> 9" by simp
  then have "unat n \<le> 9" by (simp add: word_le_nat_alt)
  with Cons(2) have n: "unat n < length (font F)" by (simp add: fontOK_def)
  then have "font F ! unat n \<in> set (font F)" by simp
  with Cons(2) have g: "fontWidth F * fontHeight F \<le> int (length (font F ! unat n))"
    by (simp add: fontOK_def)
  from drawNumber_returns [OF Cons(3) g] obtain img1 s1 where
    d: "drawNumber F img (font F ! unat n) x y s = Inr (img1, s1)" by blast
  from drawNumber_frame [OF d] Cons(3) have d1: "0 \<le> dotSize img1" by (simp add: paints_def)
  from Cons(4) have rest: "\<forall>n \<in> set numbers. n \<le> 9" by simp
  from Cons(1) [OF Cons(2) d1 rest] obtain img' s' where
    "NewImage_numbers F img1 numbers (x + (numWidth img1 + dotSize img1)) y s1 = Inr (img', s')"
    by blast
  with n d show ?case by simp
qed



lemma NewImage_anchor_returns:
  assumes "(numWidth img + dotSize img) * n + 3 * dotSize img \<le> width"
    and "numHeight img + 4 * dotSize img \<le> height"
  shows "\<exists>x y s'. NewImage_anchor img width height n s = Inr ((x, y), s')"
proof -
  have "dotSize img * 2 \<le> width - (numWidth img + dotSize img) * n - dotSize img"
    using assms(1) by simp
  from rnd_ok [OF this] obtain x s1 where
    x: "rnd (dotSize img * 2) (width - (numWidth img + dotSize img) * n - dotSize img) s = Inr (x, s1)"
    by blast
  have "dotSize img * 2 \<le> height - numHeight img - dotSize img * 2" using assms(2) by simp
  from rnd_ok [OF this] obtain y s2 where
    "rnd (dotSize img * 2) (height - numHeight img - dotSize img * 2) s1 = Inr (y, s2)" by blast
  with x show ?thesis by (simp add: NewImage_anchor_def Let_def)
qed


lemma calculateSizes_layout:
  assumes "0 < width" "0 < height"
  shows "\<exists>d nW nH. \<forall>img. calculateSizes F img width height n =
           img\<lparr>dotSize := d, numWidth := nW, numHeight := nH\<rparr>"
  by (intro exI allI) (rule calculateSizes_unfold [OF assms])

lemma Intn_129_byte:
  assumes "Intn 129 s = Inr (v, s')"
  shows "(word_of_int v :: byte) < 255"
proof -
  from assms have v: "0 \<le> v" "v < 129" by (auto simp: Intn_def)
  have "uint (word_of_int v :: byte) = v mod 2 ^ LENGTH(8)" by (rule uint_word_of_int)
  with v have "uint (word_of_int v :: byte) = v" by simp
  with v show ?thesis by (simp add: word_less_def)
qed

lemma Intn_129_ok: "\<exists>v s'. Intn 129 s = Inr (v, s')"
  by (simp add: Intn_def)

text \<open>
  With a well-formed font, valid arguments and a layout that leaves room for the circles of
  the background and for the anchor, \<^verbatim>\<open>NewImage\<close> reaches \<^verbatim>\<open>strikeThrough\<close>.
\<close>

lemma NewImage_prefix:
  assumes F: "fontOK F" and w: "0 < width" and h: "0 < height" and ne: "numbers \<noteq> []"
    and digits: "\<forall>n \<in> set numbers. n \<le> 9"
    and L: "L = calculateSizes F img width height (int (length numbers))"
    and d1: "1 \<le> dotSize L"
    and mx: "(numWidth L + dotSize L) * int (length numbers) + 3 * dotSize L \<le> width"
    and my: "numHeight L + 4 * dotSize L \<le> height"
  shows "\<exists>img3 s6. NewImage F numbers width height s = strikeThrough img3 s6 \<and>
           dotSize img3 = dotSize L \<and> MaxX img3 = width \<and> MaxY img3 = height"
proof -
  let ?n = "int (length numbers)"
  have n1: "1 \<le> ?n" using ne by (cases numbers) simp_all
  from calculateSizes_layout [OF w h] obtain d nW nH where
    cs: "\<And>i. calculateSizes F i width height ?n = i\<lparr>dotSize := d, numWidth := nW, numHeight := nH\<rparr>"
    by blast
  have Ld: "dotSize L = d" "numWidth L = nW" "numHeight L = nH" by (simp_all add: L cs)
  from F have fd: "1 \<le> fontWidth F" "1 \<le> fontHeight F" by (simp_all add: fontOK_def)
  from calculateSizes_nonneg_fields [OF w h n1 fd, of img] have nn: "0 \<le> nW" "0 \<le> nH" "0 \<le> d"
    by (simp_all add: cs)
  from Intn_129_ok obtain r s1 where r: "Intn 129 s = Inr (r, s1)" by blast
  from Intn_129_ok obtain g s2 where g: "Intn 129 s1 = Inr (g, s2)" by blast
  from Intn_129_ok obtain b s3 where b: "Intn 129 s2 = Inr (b, s3)" by blast
  define img1 where "img1 = calculateSizes F (new_CaptchaImage width height r g b) width height ?n"
  have i1: "dotSize img1 = d" "numWidth img1 = nW" "numHeight img1 = nH"
    "MaxX img1 = width" "MaxY img1 = height"
    "primaryColor img1 = \<lparr>R = word_of_int r, G = word_of_int g, B = word_of_int b, A = 255\<rparr>"
    by (simp_all add: img1_def cs new_CaptchaImage_def)
  have pc: "max3 (R (primaryColor img1)) (G (primaryColor img1)) (B (primaryColor img1)) < 255"
    using Intn_129_byte [OF r] Intn_129_byte [OF g] Intn_129_byte [OF b]
    by (simp add: i1 max3_less)
  have prod: "0 \<le> (nW + d) * ?n" using nn n1 by simp
  have "(nW + d) * ?n + 3 * d \<le> width" using mx by (simp add: Ld)
  with prod nn have "2 * d \<le> width" by linarith
  then have dx: "2 * dotSize img1 \<le> MaxX img1" by (simp add: i1)
  from my nn have dy: "2 * dotSize img1 \<le> MaxY img1" by (simp add: i1 Ld)
  have dd: "1 \<le> dotSize img1" using d1 by (simp add: i1 Ld)
  from fillWithCircles_returns [OF pc dd dx dy] obtain img2 s4 where
    fill: "fillWithCircles img1 10 (dotSize img1) s3 = Inr (img2, s4)" by blast
  from fillWithCircles_frame [OF fill] have i2: "dotSize img2 = d" "numWidth img2 = nW"
    "numHeight img2 = nH" "MaxX img2 = width" "MaxY img2 = height"
    by (simp_all add: sameFields_def i1)
  have "(numWidth img2 + dotSize img2) * ?n + 3 * dotSize img2 \<le> width"
    "numHeight img2 + 4 * dotSize img2 \<le> height"
    using mx my by (simp_all add: i2 Ld)
  from NewImage_anchor_returns [OF this] obtain x y s5 where
    anchor: "NewImage_anchor img2 width height ?n s4 = Inr ((x, y), s5)" by blast
  have "0 \<le> dotSize img2" using nn by (simp add: i2)
  from NewImage_numbers_returns [OF F this digits] obtain img3 s6 where
    nums: "NewImage_numbers F img2 numbers x y s5 = Inr (img3, s6)" by blast
  from NewImage_numbers_frame [OF nums] have i3: "dotSize img3 = d" "MaxX img3 = width"
    "MaxY img3 = height" by (simp_all add: paints_def i2)
  have "NewImage F numbers width height s = strikeThrough img3 s6"
    using w h ne r g b fill anchor nums
    by (simp add: NewImage_def Let_def img1_def [symmetric])
  moreover have "dotSize img3 = dotSize L" by (simp add: i3 Ld)
  ultimately show ?thesis using i3 by blast
qed

lemma strikeThrough_fails:
  assumes "dotSize img < 4" "0 \<le> dotSize img" "0 < MaxX img" "0 \<le> MaxY img"
  shows "strikeThrough img s = Inl (IntnNonPositive (quo (dotSize img) 2 - 1))"
proof -
  have "quo (MaxY img) 3 \<le> MaxY img - quo (MaxY img) 3"
    using assms(4) by (simp add: quo_nonneg)
  from rnd_ok [OF this] obtain y s1 where
    y: "rnd (quo (MaxY img) 3) (MaxY img - quo (MaxY img) 3) s = Inr (y, s1)" by blast
  have "quo (dotSize img) 2 - 1 \<le> 0" using assms(1,2) by (simp add: quo_nonneg)
  then have "rnd 1 (quo (dotSize img) 2 - 1) s1 = Inl (IntnNonPositive (quo (dotSize img) 2 - 1))"
    by (simp add: rnd_def Intn_def)
  then have "strikeThrough_loop img (MaxX img) (MaxY img) 0 y s1
      = Inl (IntnNonPositive (quo (dotSize img) 2 - 1))"
    using assms(3) by (subst strikeThrough_loop.simps) simp
  with y show ?thesis by (simp add: strikeThrough_def Let_def)
qed





lemma NewImage_returns_aux:
  assumes "fontOK F" "0 < width" "0 < height" "numbers \<noteq> []" "\<forall>n \<in> set numbers. n \<le> 9"
    and "L = calculateSizes F img width height (int (length numbers))"
    and "4 \<le> dotSize L"
    and "(numWidth L + dotSize L) * int (length numbers) + 3 * dotSize L \<le> width"
    and "numHeight L + 4 * dotSize L \<le> height"
  shows "\<exists>img' s'. NewImage F numbers width height s = Inr (img', s')"
proof -
  from assms(7) have "1 \<le> dotSize L" by simp
  from NewImage_prefix [OF assms(1-6) this assms(8,9)] obtain img3 s6 where
    n: "NewImage F numbers width height s = strikeThrough img3 s6" and
    i: "dotSize img3 = dotSize L" "MaxY img3 = height" by blast
  have "4 \<le> dotSize img3" "0 \<le> MaxY img3" using assms(7,3) i by simp_all
  from strikeThrough_loop_returns [OF this, of "MaxX img3" 0] obtain img' s' where
    "strikeThrough img3 s6 = Inr (img', s')"
    using rnd_ok [of "quo (MaxY img3) 3" "MaxY img3 - quo (MaxY img3) 3" s6] \<open>0 \<le> MaxY img3\<close>
    by (fastforce simp: strikeThrough_def Let_def quo_nonneg)
  with n show ?thesis by simp
qed

lemma fontOK_sampleFont: "fontOK sampleFont"
  by (simp add: fontOK_def sampleFont_def)

lemma layout_300_80_5:
  "dotSize (calculateSizes sampleFont blank3 300 80 5) = 6 \<and>
   numWidth (calculateSizes sampleFont blank3 300 80 5) = 36 \<and>
   numHeight (calculateSizes sampleFont blank3 300 80 5) = 42"
  by code_simp

lemma layout_100_40_5:
  "dotSize (calculateSizes sampleFont blank3 100 40 5) = 2 \<and>
   numWidth (calculateSizes sampleFont blank3 100 40 5) = 16 \<and>
   numHeight (calculateSizes sampleFont blank3 100 40 5) = 20"
  by code_simp

text \<open>
  C2, as amended. For valid arguments (a positive width and height, digits from 0 to 9, at
  least one digit; the font table well formed) and a layout with \<open>dotSize \<ge> 4\<close>,
  \<open>(numWidth + dotSize) * n + 3 * dotSize \<le> width\<close> and
  \<open>numHeight + 4 * dotSize \<le> height\<close>, \<^verbatim>\<open>NewImage\<close> returns an image, for every random
  source: no interval passed to \<open>rnd\<close> is empty and no index is out of range. The layout
  does not depend on the image \<open>img\<close> that \<^verbatim>\<open>calculateSizes\<close> is applied to.
\<close>

theorem NewImage_returns:
  assumes "fontOK F" "0 < width" "0 < height" "numbers \<noteq> []" "\<forall>n \<in> set numbers. n \<le> 9"
    and "L = calculateSizes F img width height (int (length numbers))"
    and "4 \<le> dotSize L"
    and "(numWidth L + dotSize L) * int (length numbers) + 3 * dotSize L \<le> width"
    and "numHeight L + 4 * dotSize L \<le> height"
  shows "\<exists>img' s'. NewImage F numbers width height s = Inr (img', s')"
  using assms by (rule NewImage_returns_aux)

theorem NewImage_returns_witness:
  "fontOK sampleFont \<and> (0::int) < 300 \<and> (0::int) < 80 \<and> [1, 2, 3, 4, 5::byte] \<noteq> [] \<and>
   4 \<le> dotSize (calculateSizes sampleFont blank3 300 80 5) \<and>
   (numWidth (calculateSizes sampleFont blank3 300 80 5)
      + dotSize (calculateSizes sampleFont blank3 300 80 5)) * 5
      + 3 * dotSize (calculateSizes sampleFont blank3 300 80 5) \<le> 300 \<and>
   numHeight (calculateSizes sampleFont blank3 300 80 5)
      + 4 * dotSize (calculateSizes sampleFont blank3 300 80 5) \<le> 80 \<and>
   (\<exists>img' s'. NewImage sampleFont [1, 2, 3, 4, 5] 300 80 zeros = Inr (img', s'))"
proof -
  have d: "\<forall>n \<in> set [1, 2, 3, 4, 5::byte]. n \<le> 9" by simp
  have L: "calculateSizes sampleFont blank3 300 80 5
         = calculateSizes sampleFont blank3 300 80 (int (length [1, 2, 3, 4, 5::byte]))" by simp
  have c: "4 \<le> dotSize (calculateSizes sampleFont blank3 300 80 5)"
    "(numWidth (calculateSizes sampleFont blank3 300 80 5)
      + dotSize (calculateSizes sampleFont blank3 300 80 5)) * int (length [1, 2, 3, 4, 5::byte])
      + 3 * dotSize (calculateSizes sampleFont blank3 300 80 5) \<le> 300"
    "numHeight (calculateSizes sampleFont blank3 300 80 5)
      + 4 * dotSize (calculateSizes sampleFont blank3 300 80 5) \<le> 80"
    using layout_300_80_5 by simp_all
  have "\<exists>img' s'. NewImage sampleFont [1, 2, 3, 4, 5] 300 80 zeros = Inr (img', s')"
    by (rule NewImage_returns [OF fontOK_sampleFont _ _ _ d L c]) simp_all
  with c fontOK_sampleFont show ?thesis by simp
qed

text \<open>
  C2 as stated fails: for a 100 by 40 image with the five digits 1 to 5 (font 5 by 8) the
  layout has \<open>dotSize = 2\<close>, and \<^verbatim>\<open>strikeThrough\<close> calls \<^verbatim>\<open>rnd(1, img.dotSize/2-1)\<close>, that is
  \<^verbatim>\<open>rnd(1, 0)\<close>, whose interval is empty: the argument of \<^verbatim>\<open>Intn\<close> is 0.
\<close>

theorem NewImage_empty_interval_counterexample:
  "(0::int) < 100 \<and> (0::int) < 40 \<and> [1, 2, 3, 4, 5::byte] \<noteq> [] \<and>
   NewImage sampleFont [1, 2, 3, 4, 5] 100 40 zeros = Inl (IntnNonPositive 0)"
proof -
  have d: "\<forall>n \<in> set [1, 2, 3, 4, 5::byte]. n \<le> 9" by simp
  have L: "calculateSizes sampleFont blank3 100 40 5
         = calculateSizes sampleFont blank3 100 40 (int (length [1, 2, 3, 4, 5::byte]))" by simp
  have c: "1 \<le> dotSize (calculateSizes sampleFont blank3 100 40 5)"
    "(numWidth (calculateSizes sampleFont blank3 100 40 5)
      + dotSize (calculateSizes sampleFont blank3 100 40 5)) * int (length [1, 2, 3, 4, 5::byte])
      + 3 * dotSize (calculateSizes sampleFont blank3 100 40 5) \<le> 100"
    "numHeight (calculateSizes sampleFont blank3 100 40 5)
      + 4 * dotSize (calculateSizes sampleFont blank3 100 40 5) \<le> 40"
    using layout_100_40_5 by simp_all
  have "\<exists>img3 s6. NewImage sampleFont [1, 2, 3, 4, 5] 100 40 zeros = strikeThrough img3 s6 \<and>
      dotSize img3 = dotSize (calculateSizes sampleFont blank3 100 40 5) \<and>
      MaxX img3 = 100 \<and> MaxY img3 = 40"
    by (rule NewImage_prefix [OF fontOK_sampleFont _ _ _ d L c]) simp_all
  then obtain img3 s6 where
    n: "NewImage sampleFont [1, 2, 3, 4, 5] 100 40 zeros = strikeThrough img3 s6" and
    i: "dotSize img3 = 2" "MaxX img3 = 100" "MaxY img3 = 40"
    using layout_100_40_5 by auto
  have "strikeThrough img3 s6 = Inl (IntnNonPositive (quo (dotSize img3) 2 - 1))"
    by (rule strikeThrough_fails) (simp_all add: i)
  with n i show ?thesis by (simp add: quo_def)
qed


end
